theory Spec2Isabelle
  imports Main
begin

chapter \<open>The program\<close>

text \<open>
  A model of \<^verbatim>\<open>terminal_browser.c\<close>, function by function: the preprocessor
  (\<^verbatim>\<open>sanitize_ascii_inplace\<close>, \<^verbatim>\<open>strip_script_style_meta\<close>), the tree builder
  (\<^verbatim>\<open>parse_attrs\<close>, \<^verbatim>\<open>parse_html_tree\<close>), the two layout routines
  \<^verbatim>\<open>render_wrapped_text\<close> and \<^verbatim>\<open>render_table_node\<close>, and the load and key handling
  of \<^verbatim>\<open>main\<close>.  Allocation failure ends the process in the C code and is not
  modelled.
\<close>

section \<open>Characters and C string helpers\<close>

text \<open>
  Strings are C strings: lists of bytes without the terminating NUL.  The
  character classes are those of \<^verbatim>\<open>ctype.h\<close> on 7-bit ASCII, which is all the
  Tree Builder ever sees after \<^verbatim>\<open>sanitize_ascii_inplace\<close>.
\<close>

definition code_of :: "char \<Rightarrow> nat" where
  "code_of c = of_char c"

definition isdigit :: "char \<Rightarrow> bool" where
  "isdigit c = (48 \<le> code_of c \<and> code_of c \<le> 57)"

definition isalnum :: "char \<Rightarrow> bool" where
  "isalnum c = (isdigit c \<or> (65 \<le> code_of c \<and> code_of c \<le> 90)
                 \<or> (97 \<le> code_of c \<and> code_of c \<le> 122))"

text \<open>\<^verbatim>\<open>isspace\<close>: space, TAB, LF, VT, FF, CR.\<close>

definition isspace :: "char \<Rightarrow> bool" where
  "isspace c = (code_of c = 32 \<or> (9 \<le> code_of c \<and> code_of c \<le> 13))"

definition tolower :: "char \<Rightarrow> char" where
  "tolower c = (if 65 \<le> code_of c \<and> code_of c \<le> 90 then char_of (code_of c + 32) else c)"

abbreviation LF :: char where "LF \<equiv> CHR 0x0A"
abbreviation TAB :: char where "TAB \<equiv> CHR 0x09"
abbreviation CR :: char where "CR \<equiv> CHR 0x0D"
abbreviation SP :: char where "SP \<equiv> CHR '' ''"

text \<open>
  \<^verbatim>\<open>strncmp(a, b, n) == 0\<close> and \<^verbatim>\<open>strncasecmp(a, b, n) == 0\<close> on NUL-free strings: the
  first \<open>n\<close> bytes agree, where a string that ends earlier only agrees with one
  that ends at the same place.
\<close>

definition strncmp_eq :: "string \<Rightarrow> string \<Rightarrow> nat \<Rightarrow> bool" where
  "strncmp_eq a b n = (take n a = take n b)"

definition strncasecmp_eq :: "string \<Rightarrow> string \<Rightarrow> nat \<Rightarrow> bool" where
  "strncasecmp_eq a b n = (map tolower (take n a) = map tolower (take n b))"

text \<open>
  \<^verbatim>\<open>strstr\<close>, \<^verbatim>\<open>strcasestr_local\<close> and \<^verbatim>\<open>strchr\<close> return the offset of the first
  match instead of a pointer; \<open>None\<close> is \<^verbatim>\<open>NULL\<close>.
\<close>

fun strstr :: "string \<Rightarrow> string \<Rightarrow> nat option" where
  "strstr [] needle = (if needle = [] then Some 0 else None)"
| "strstr (c # cs) needle =
     (if take (length needle) (c # cs) = needle then Some 0
      else map_option Suc (strstr cs needle))"

fun strcasestr :: "string \<Rightarrow> string \<Rightarrow> nat option" where
  "strcasestr [] needle = (if needle = [] then Some 0 else None)"
| "strcasestr (c # cs) needle =
     (if map tolower (take (length needle) (c # cs)) = map tolower needle then Some 0
      else map_option Suc (strcasestr cs needle))"

fun strchr :: "string \<Rightarrow> char \<Rightarrow> nat option" where
  "strchr [] ch = None"
| "strchr (c # cs) ch = (if c = ch then Some 0 else map_option Suc (strchr cs ch))"

section \<open>Data structures\<close>

datatype NodeType =
    NODE_TEXT | NODE_BR | NODE_HR | NODE_DIV | NODE_HEADER | NODE_PARAGRAPH
  | NODE_PRE | NODE_CODE | NODE_BOLD | NODE_ITALIC | NODE_MARK | NODE_UNDER
  | NODE_STRIKE | NODE_BLOCKQUOTE | NODE_UL | NODE_OL | NODE_LI
  | NODE_DL | NODE_DT | NODE_DD | NODE_IMG | NODE_FIGURE | NODE_FIGCAP
  | NODE_DETAILS | NODE_SUMMARY | NODE_TABLE | NODE_TR | NODE_TD | NODE_TH
  | NODE_A | NODE_FORM | NODE_INPUT | NODE_TEXTAREA | NODE_SELECT | NODE_BUTTON
  | NODE_MAIN | NODE_HEADERBAR | NODE_FOOTER

type_synonym Attr = "string \<times> string"

text \<open>
  A node owns its text, its attribute list and its children, in insertion
  order.  The tree is a value; a pointer to a node of the tree under
  construction is the path of child indices that leads to it from the root
  (children are only ever appended, so a path keeps denoting the same node).
  The non-owning \<^verbatim>\<open>parent\<close> pointer is the path without its last index.  The
  render state (\<^verbatim>\<open>expanded\<close>, \<^verbatim>\<open>list_number\<close>) is zero in every node the
  builder creates and is not a field of the model.
\<close>

datatype Node = Node (ntype: NodeType) (ntext: "string option") (attrs: "Attr list")
  (children: "Node list")

definition node_create :: "NodeType \<Rightarrow> Node" where
  "node_create t = Node t None [] []"

definition node_append_child :: "Node \<Rightarrow> Node \<Rightarrow> Node" where
  "node_append_child parent child =
     Node (ntype parent) (ntext parent) (attrs parent) (children parent @ [child])"

type_synonym path = "nat list"

text \<open>Dereferencing a node pointer, and \<^verbatim>\<open>node_append_child\<close> through a pointer.\<close>

fun node_at :: "Node \<Rightarrow> path \<Rightarrow> Node" where
  "node_at n [] = n"
| "node_at n (i # p) = (if i < length (children n) then node_at (children n ! i) p else n)"

fun append_at :: "path \<Rightarrow> Node \<Rightarrow> Node \<Rightarrow> Node" where
  "append_at [] child n = node_append_child n child"
| "append_at (i # p) child n =
     (if i < length (children n)
      then Node (ntype n) (ntext n) (attrs n)
             ((children n)[i := append_at p child (children n ! i)])
      else n)"

section \<open>Attribute parsing\<close>

definition attr_name_char :: "char \<Rightarrow> bool" where
  "attr_name_char c = (isalnum c \<or> c = CHR ''-'' \<or> c = CHR '':'')"

text \<open>
  One round of the loop of \<^verbatim>\<open>parse_attrs\<close>: \<open>None\<close> when the loop ends (end of
  string, or an empty name), otherwise the attribute read and the rest of the
  string.  The buffers hold 127 bytes of name and 511 bytes of value.
\<close>

definition attr_value :: "string \<Rightarrow> string \<times> string" where
  "attr_value p =
     (if p \<noteq> [] \<and> (hd p = CHR 0x22 \<or> hd p = CHR 0x27) then
        (let q = hd p;
             v = take 511 (takeWhile (\<lambda>c. c \<noteq> q) (tl p));
             r = drop (length v) (tl p)
         in (v, if r \<noteq> [] \<and> hd r = q then tl r else r))
      else
        (let v = take 511 (takeWhile (\<lambda>c. \<not> isspace c \<and> c \<noteq> CHR ''>'') p)
         in (v, drop (length v) p)))"

definition attr_step :: "string \<Rightarrow> (Attr \<times> string) option" where
  "attr_step s =
     (let p0 = dropWhile isspace s in
      if p0 = [] then None
      else
        (let name = take 127 (takeWhile attr_name_char p0);
             p1 = dropWhile isspace (drop (length name) p0);
             p2 = (if p1 \<noteq> [] \<and> hd p1 = CHR ''='' then tl p1 else p1);
             p3 = dropWhile isspace p2;
             (v, rest) = attr_value p3
         in if name \<noteq> [] then Some ((name, v), rest) else None))"

lemma attr_value_length: "length (snd (attr_value p)) \<le> length p"
  by (auto simp: attr_value_def Let_def)

lemma attr_step_shorter:
  assumes "attr_step s = Some (a, r)"
  shows "length r < length s"
proof -
  define p0 where "p0 = dropWhile isspace s"
  define name where "name = take 127 (takeWhile attr_name_char p0)"
  define p1 where "p1 = dropWhile isspace (drop (length name) p0)"
  define p2 where "p2 = (if p1 \<noteq> [] \<and> hd p1 = CHR ''='' then tl p1 else p1)"
  define p3 where "p3 = dropWhile isspace p2"
  from assms have ne: "name \<noteq> []" and r: "r = snd (attr_value p3)"
    unfolding attr_step_def Let_def p0_def [symmetric] name_def [symmetric] p1_def [symmetric] p2_def [symmetric] p3_def [symmetric]
    by (auto split: if_splits prod.splits)
  have "length r \<le> length p3" using r attr_value_length by simp
  also have "\<dots> \<le> length p2" unfolding p3_def by (rule length_dropWhile_le)
  also have "\<dots> \<le> length p1" by (simp add: p2_def)
  also have "\<dots> \<le> length (drop (length name) p0)"
    unfolding p1_def by (rule length_dropWhile_le)
  also have "\<dots> < length p0"
  proof -
    have "length name \<le> length (takeWhile attr_name_char p0)"
      by (simp add: name_def)
    then have "length name \<le> length p0"
      using length_takeWhile_le [of attr_name_char p0] by linarith
    moreover have "0 < length name" using ne by simp
    moreover have "length (drop (length name) p0) = length p0 - length name" by simp
    ultimately show ?thesis by linarith
  qed
  also have "\<dots> \<le> length s" unfolding p0_def by (rule length_dropWhile_le)
  finally show ?thesis .
qed

function parse_attrs :: "string \<Rightarrow> Attr list" where
  "parse_attrs s = (case attr_step s of None \<Rightarrow> [] | Some (a, r) \<Rightarrow> a # parse_attrs r)"
  by pat_completeness auto
termination
  apply (relation "measure length")
   apply simp
  subgoal for s x2 a r
    using attr_step_shorter [of s a r] by simp
  done

section \<open>The Preprocessor\<close>

definition sanitize_ascii :: "string \<Rightarrow> string" where
  "sanitize_ascii buf =
     map (\<lambda>c. if 128 \<le> code_of c then CHR ''?''
              else if code_of c < 32 \<and> c \<noteq> LF \<and> c \<noteq> TAB \<and> c \<noteq> CR then SP
              else c) buf"

text \<open>
  The loop of \<^verbatim>\<open>strip_script_style_meta\<close>, with \<open>i\<close> the value of the loop counter
  at the head of a round (after the \<^verbatim>\<open>i++\<close> that follows a \<^verbatim>\<open>continue\<close>) and \<open>out\<close>
  the bytes copied so far.
\<close>

function strip_loop :: "string \<Rightarrow> nat \<Rightarrow> string \<Rightarrow> string" where
  "strip_loop src i out =
     (if i < length src then
        (if src ! i = CHR ''<'' then
           (if i + 8 < length src
               \<and> (strncasecmp_eq (drop (i + 1) src) ''script'' 6
                   \<or> strncasecmp_eq (drop (i + 1) src) ''/script'' 7) then
              (case strcasestr (drop i src) ''</script>'' of
                 Some e \<Rightarrow> strip_loop src (((i + e) + 8 - 1) + 1) out
               | None \<Rightarrow> out)
            else if i + 7 < length src
               \<and> (strncasecmp_eq (drop (i + 1) src) ''style'' 5
                   \<or> strncasecmp_eq (drop (i + 1) src) ''/style'' 6) then
              (case strcasestr (drop i src) ''</style>'' of
                 Some e \<Rightarrow> strip_loop src (((i + e) + 7 - 1) + 1) out
               | None \<Rightarrow> out)
            else if i + 5 < length src
               \<and> (strncasecmp_eq (drop (i + 1) src) ''meta'' 4
                   \<or> strncasecmp_eq (drop (i + 1) src) ''link'' 4) then
              (case strchr (drop i src) (CHR ''>'') of
                 Some g \<Rightarrow> strip_loop src ((i + g) + 1) out
               | None \<Rightarrow> strip_loop src (i + 1) (out @ [src ! i]))
            else strip_loop src (i + 1) (out @ [src ! i]))
         else strip_loop src (i + 1) (out @ [src ! i]))
      else out)"
  by pat_completeness auto
termination
  by (relation "measure (\<lambda>(src, i, out). length src - i)") auto

definition strip_script_style_meta :: "string \<Rightarrow> string" where
  "strip_script_style_meta src = strip_loop src 0 []"

section \<open>The Tree Builder: \<^verbatim>\<open>parse_html_tree\<close>\<close>

subsection \<open>Reading a tag\<close>

definition tag_char :: "char \<Rightarrow> bool" where
  "tag_char c = (isalnum c \<or> c = CHR ''-'')"

text \<open>
  What the builder reads between \<^verbatim>\<open><\<close> and \<^verbatim>\<open>>\<close>: whether the tag is a closing
  tag, its name (lower case, at most 63 bytes) and the attribute text (at most
  511 bytes).
\<close>

definition scan_tag :: "string \<Rightarrow> bool \<times> string \<times> string" where
  "scan_tag inside =
     (let p0 = dropWhile isspace inside;
          closing = (p0 \<noteq> [] \<and> hd p0 = CHR ''/'');
          p1 = (if closing then tl p0 else p0);
          raw = take 63 (takeWhile tag_char p1);
          p2 = drop (length raw) p1
      in (closing, map tolower raw, take 511 p2))"

subsection \<open>Closing tags\<close>

text \<open>The \<^verbatim>\<open>switch\<close> of the closing branch: does a node of this type match the name?\<close>

definition accepts :: "NodeType \<Rightarrow> string \<Rightarrow> bool" where
  "accepts t tag =
     (case t of
        NODE_DIV \<Rightarrow> tag = ''div''
      | NODE_MAIN \<Rightarrow> tag = ''main''
      | NODE_HEADERBAR \<Rightarrow> tag = ''header''
      | NODE_FOOTER \<Rightarrow> tag = ''footer''
      | NODE_HEADER \<Rightarrow> (case tag of [] \<Rightarrow> False | c # _ \<Rightarrow> c = CHR ''h'')
      | NODE_PARAGRAPH \<Rightarrow> tag = ''p''
      | NODE_PRE \<Rightarrow> tag = ''pre''
      | NODE_CODE \<Rightarrow> tag = ''code''
      | NODE_BLOCKQUOTE \<Rightarrow> tag = ''blockquote'' \<or> tag = ''q''
      | NODE_UL \<Rightarrow> tag = ''ul''
      | NODE_OL \<Rightarrow> tag = ''ol''
      | NODE_LI \<Rightarrow> tag = ''li''
      | NODE_TABLE \<Rightarrow> tag = ''table''
      | NODE_TR \<Rightarrow> tag = ''tr''
      | NODE_TD \<Rightarrow> tag = ''td''
      | NODE_TH \<Rightarrow> tag = ''th''
      | NODE_A \<Rightarrow> tag = ''a''
      | NODE_DETAILS \<Rightarrow> tag = ''details''
      | NODE_SUMMARY \<Rightarrow> tag = ''summary''
      | NODE_FIGURE \<Rightarrow> tag = ''figure''
      | NODE_FIGCAP \<Rightarrow> tag = ''figcaption''
      | _ \<Rightarrow> False)"

text \<open>
  The open-element stack is a list of node pointers whose head is
  \<^verbatim>\<open>stack[sp-1]\<close> and whose last element is \<^verbatim>\<open>stack[0]\<close>, the root.  The loop
  \<^verbatim>\<open>for(i = sp-1; i > 0; --i)\<close> walks it from the head and never looks at the last
  element; \<open>find_match\<close> returns how many entries lie above the first match, and
  \<^verbatim>\<open>sp = i\<close> drops the match and everything above it.
\<close>

fun find_match :: "Node \<Rightarrow> string \<Rightarrow> path list \<Rightarrow> nat option" where
  "find_match root tag [] = None"
| "find_match root tag [bottom] = None"
| "find_match root tag (p # ps) =
     (if accepts (ntype (node_at root p)) tag then Some 0
      else map_option Suc (find_match root tag ps))"

definition close_tag :: "Node \<Rightarrow> string \<Rightarrow> path list \<Rightarrow> path list" where
  "close_tag root tag stack =
     (case find_match root tag stack of None \<Rightarrow> stack | Some k \<Rightarrow> drop (Suc k) stack)"

subsection \<open>Opening tags\<close>

definition is_header_tag :: "string \<Rightarrow> bool" where
  "is_header_tag tag = (case tag of h # d # _ \<Rightarrow> h = CHR ''h'' \<and> isdigit d | _ \<Rightarrow> False)"

text \<open>
  The \<^verbatim>\<open>if\<close>/\<^verbatim>\<open>else if\<close> chain of the opening branch, in its order: the node type,
  whether \<^verbatim>\<open>parse_attrs\<close> is called, and whether the node is pushed.
\<close>

definition open_kind :: "string \<Rightarrow> NodeType \<times> bool \<times> bool" where
  "open_kind tag =
     (if tag = ''br'' then (NODE_BR, False, False)
      else if tag = ''hr'' then (NODE_HR, False, False)
      else if tag = ''div'' then (NODE_DIV, True, True)
      else if tag = ''main'' then (NODE_MAIN, True, True)
      else if is_header_tag tag then (NODE_HEADER, True, True)
      else if tag = ''p'' then (NODE_PARAGRAPH, True, True)
      else if tag = ''pre'' then (NODE_PRE, True, True)
      else if tag = ''code'' then (NODE_CODE, True, True)
      else if tag = ''blockquote'' \<or> tag = ''q'' then (NODE_BLOCKQUOTE, True, True)
      else if tag = ''ul'' then (NODE_UL, False, True)
      else if tag = ''ol'' then (NODE_OL, True, True)
      else if tag = ''li'' then (NODE_LI, False, True)
      else if tag = ''dl'' then (NODE_DL, False, True)
      else if tag = ''dt'' then (NODE_DT, False, True)
      else if tag = ''dd'' then (NODE_DD, False, True)
      else if tag = ''figure'' then (NODE_FIGURE, False, True)
      else if tag = ''figcaption'' then (NODE_FIGCAP, False, True)
      else if tag = ''details'' then (NODE_DETAILS, True, True)
      else if tag = ''summary'' then (NODE_SUMMARY, False, True)
      else if tag = ''table'' then (NODE_TABLE, False, True)
      else if tag = ''tr'' then (NODE_TR, False, True)
      else if tag = ''td'' then (NODE_TD, False, True)
      else if tag = ''th'' then (NODE_TH, False, True)
      else if tag = ''a'' then (NODE_A, True, True)
      else if tag = ''img'' then (NODE_IMG, True, False)
      else if tag = ''form'' then (NODE_FORM, True, True)
      else if tag = ''input'' then (NODE_INPUT, True, False)
      else if tag = ''textarea'' then (NODE_TEXTAREA, True, True)
      else if tag = ''select'' then (NODE_SELECT, True, True)
      else if tag = ''button'' then (NODE_BUTTON, True, False)
      else if tag = ''header'' then (NODE_HEADERBAR, False, True)
      else if tag = ''footer'' then (NODE_FOOTER, False, True)
      else if tag = ''strong'' \<or> tag = ''b'' then (NODE_BOLD, False, True)
      else if tag = ''em'' \<or> tag = ''i'' \<or> tag = ''cite'' \<or> tag = ''dfn'' \<or> tag = ''address''
        then (NODE_ITALIC, False, True)
      else if tag = ''mark'' then (NODE_MARK, False, True)
      else if tag = ''u'' \<or> tag = ''ins'' \<or> tag = ''abbr'' then (NODE_UNDER, False, True)
      else if tag = ''del'' then (NODE_STRIKE, False, True)
      else if tag = ''samp'' then (NODE_CODE, False, True)
      else (NODE_DIV, True, True))"

text \<open>\<^verbatim>\<open>stack[sp-1]\<close>; the stack always holds the root (\<open>sp \<ge> 1\<close>).\<close>

definition top :: "path list \<Rightarrow> path" where
  "top stack = (case stack of [] \<Rightarrow> [] | p # _ \<Rightarrow> p)"

text \<open>
  The stack is an array of 4096 pointers and \<^verbatim>\<open>stack[sp++] = node\<close> is not
  checked: a push onto a full stack writes past its end, which the model
  reports as \<open>None\<close>.
\<close>

definition STACK_SLOTS :: nat where
  "STACK_SLOTS = 4096"

definition open_tag :: "string \<Rightarrow> string \<Rightarrow> Node \<Rightarrow> path list \<Rightarrow> (Node \<times> path list) option" where
  "open_tag tag attrs_sub root stack =
     (let (t, with_attrs, push) = open_kind tag;
          node = Node t None (if with_attrs then parse_attrs attrs_sub else []) [];
          parent = top stack;
          root' = append_at parent node root;
          ptr = parent @ [length (children (node_at root parent))]
      in if push
         then (if length stack < STACK_SLOTS then Some (root', ptr # stack) else None)
         else Some (root', stack))"

subsection \<open>Text runs\<close>

text \<open>The whitespace-collapsing loop with its \<^verbatim>\<open>last_space\<close> flag, then the trim.\<close>

fun collapse_loop :: "bool \<Rightarrow> string \<Rightarrow> string" where
  "collapse_loop last_space [] = []"
| "collapse_loop last_space (ch # rest) =
     (if ch = CR then collapse_loop last_space rest
      else
        (let ch' = (if ch = LF \<or> ch = TAB then SP else ch) in
         if isspace ch'
         then (if \<not> last_space then SP # collapse_loop True rest
               else collapse_loop True rest)
         else ch' # collapse_loop False rest))"

definition trim_trailing :: "string \<Rightarrow> string" where
  "trim_trailing out = rev (dropWhile (\<lambda>c. c = SP) (rev out))"

definition collapse_ws :: "string \<Rightarrow> string" where
  "collapse_ws chunk = trim_trailing (collapse_loop False chunk)"

definition text_node :: "string \<Rightarrow> Node" where
  "text_node s = Node NODE_TEXT (Some s) [] []"

definition add_text :: "string \<Rightarrow> Node \<Rightarrow> path list \<Rightarrow> Node" where
  "add_text chunk root stack =
     (if chunk = [] then root
      else
        (let parent = top stack; pt = ntype (node_at root parent) in
         if pt = NODE_PRE \<or> pt = NODE_CODE then append_at parent (text_node chunk) root
         else
           (let out = collapse_ws chunk in
            if out \<noteq> [] then append_at parent (text_node out) root else root)))"

subsection \<open>The main loop\<close>

text \<open>
  One round of \<^verbatim>\<open>while(pos < len)\<close>: go on with a new position, tree and stack;
  \<^verbatim>\<open>break\<close>; or a write past the end of the stack array.
\<close>

datatype step = Next nat Node "path list" | Stop | Overrun

definition parse_iter :: "string \<Rightarrow> nat \<Rightarrow> Node \<Rightarrow> path list \<Rightarrow> step" where
  "parse_iter html pos root stack =
     (if html ! pos = CHR ''<'' then
        (case strchr (drop (pos + 1) html) (CHR ''>'') of
           None \<Rightarrow> Stop
         | Some k \<Rightarrow>
             (let gt = pos + 1 + k;
                  inside = take k (drop (pos + 1) html)
              in if strncmp_eq inside ''!--'' 3 then
                   (case strstr (drop (pos + 4) html) ''-->'' of
                      Some e \<Rightarrow> Next (pos + 4 + e + 3) root stack
                    | None \<Rightarrow> Next pos root stack)
                 else
                   (let (closing, tag, attrs_sub) = scan_tag inside in
                    if closing then Next (gt + 1) root (close_tag root tag stack)
                    else
                      (case open_tag tag attrs_sub root stack of
                         None \<Rightarrow> Overrun
                       | Some (root', stack') \<Rightarrow> Next (gt + 1) root' stack'))))
      else
        (let chunk = takeWhile (\<lambda>c. c \<noteq> CHR ''<'') (drop pos html)
         in Next (pos + length chunk) (add_text chunk root stack) stack))"

datatype parse_error = StackOverrun

text \<open>
  The loop may run forever, so its result is an option: \<open>None\<close> is "does not
  return", \<open>Some (Inl StackOverrun)\<close> the unchecked write, \<open>Some (Inr root)\<close> the
  returned tree.
\<close>

partial_function (option) parse_loop ::
  "string \<Rightarrow> nat \<Rightarrow> Node \<Rightarrow> path list \<Rightarrow> (parse_error + Node) option" where
  "parse_loop html pos root stack =
     (if pos < length html then
        (case parse_iter html pos root stack of
           Next pos' root' stack' \<Rightarrow> parse_loop html pos' root' stack'
         | Stop \<Rightarrow> Some (Inr root)
         | Overrun \<Rightarrow> Some (Inl StackOverrun))
      else Some (Inr root))"

declare parse_loop.simps [code]

definition parse_html_tree :: "string \<Rightarrow> (parse_error + Node) option" where
  "parse_html_tree html = parse_loop html 0 (node_create NODE_DIV) [[]]"

section \<open>Rendering\<close>

text \<open>
  The renderer writes to an ncurses pad.  The model records the writes it
  asks for, in order: the row, the column and what is written there
  (\<^verbatim>\<open>mvwaddch\<close>, \<^verbatim>\<open>mvwaddnstr\<close> under the attributes dim, bold and colour pair,
  and the text that \<^verbatim>\<open>mvwprintw\<close> formats).
\<close>

type_synonym style = "bool \<times> bool \<times> int"

datatype pad_op =
    Addch (op_row: int) (op_col: int) char
  | Addnstr (op_row: int) (op_col: int) string style
  | Printw (op_row: int) (op_col: int) string

definition extent :: "pad_op \<Rightarrow> int" where
  "extent op =
     (case op of Addch _ _ _ \<Rightarrow> 1 | Addnstr _ _ s _ \<Rightarrow> int (length s)
      | Printw _ _ s \<Rightarrow> int (length s))"

subsection \<open>\<^verbatim>\<open>render_wrapped_text\<close>\<close>

record wstate =
  wy :: int
  curx :: int
  wword :: string
  wops :: "pad_op list"

text \<open>A byte that is not a space is added to the word buffer of 1024 bytes.\<close>

definition wrap_char :: "char \<Rightarrow> wstate \<Rightarrow> wstate" where
  "wrap_char c s = (if length (wword s) + 1 < 1024 then s\<lparr>wword := wword s @ [c]\<rparr> else s)"

text \<open>The space between words: drawn if it fits, otherwise a new row.\<close>

definition wrap_space :: "int \<Rightarrow> int \<Rightarrow> wstate \<Rightarrow> wstate" where
  "wrap_space g_term_w indent s =
     (if curx s + 1 \<ge> g_term_w then s\<lparr>wy := wy s + 1, curx := indent\<rparr>
      else s\<lparr>curx := curx s + 1, wops := wops s @ [Addch (wy s) (curx s) SP]\<rparr>)"

text \<open>A space (\<open>is_space\<close>) or the end of the text: the word collected so far is placed.\<close>

definition wrap_delim :: "int \<Rightarrow> int \<Rightarrow> style \<Rightarrow> bool \<Rightarrow> wstate \<Rightarrow> wstate" where
  "wrap_delim g_term_w indent st is_space s =
     (if wword s \<noteq> [] then
        (let wi = int (length (wword s));
             s1 = (if curx s + wi \<ge> g_term_w then s\<lparr>wy := wy s + 1, curx := indent\<rparr> else s);
             s2 = s1\<lparr>wops := wops s1 @ [Addnstr (wy s1) (curx s1) (wword s) st],
                     curx := curx s1 + wi\<rparr>;
             s3 = (if is_space then wrap_space g_term_w indent s2 else s2)
         in s3\<lparr>wword := []\<rparr>)
      else (if is_space then wrap_space g_term_w indent s else s))"

fun wrap_loop :: "int \<Rightarrow> int \<Rightarrow> style \<Rightarrow> string \<Rightarrow> wstate \<Rightarrow> wstate" where
  "wrap_loop g_term_w indent st [] s = wrap_delim g_term_w indent st False s"
| "wrap_loop g_term_w indent st (c # cs) s =
     wrap_loop g_term_w indent st cs
       (if c = SP then wrap_delim g_term_w indent st True s else wrap_char c s)"

text \<open>The writes and the new value of \<^verbatim>\<open>*y\<close>.\<close>

definition render_wrapped_text ::
  "int \<Rightarrow> int \<Rightarrow> int \<Rightarrow> string \<Rightarrow> bool \<Rightarrow> bool \<Rightarrow> int \<Rightarrow> pad_op list \<times> int" where
  "render_wrapped_text g_term_w y indent txt is_dim is_bold color_pair =
     (let s = wrap_loop g_term_w indent (is_dim, is_bold, color_pair) txt
                \<lparr>wy = y, curx = indent, wword = [], wops = []\<rparr>
      in (wops s, wy s + 1))"

subsection \<open>\<^verbatim>\<open>render_table_node\<close>\<close>

text \<open>The text of a cell: its direct text children, joined by single spaces.\<close>

definition cell_text :: "Node \<Rightarrow> string" where
  "cell_text cnode =
     foldl (\<lambda>buf t. case (ntype t, ntext t) of
                        (NODE_TEXT, Some s) \<Rightarrow> (if buf \<noteq> [] then buf @ [SP] else buf) @ s
                      | _ \<Rightarrow> buf)
       [] (children cnode)"

definition is_cell :: "Node \<Rightarrow> bool" where
  "is_cell n = (ntype n = NODE_TD \<or> ntype n = NODE_TH)"

text \<open>
  First pass: one list of cell texts for every \<^verbatim>\<open>tr\<close> child that has a cell, and
  the largest number of cells in a row.
\<close>

definition table_cells :: "Node \<Rightarrow> string list list" where
  "table_cells table =
     map (\<lambda>r. map cell_text (filter is_cell (children r)))
       (filter (\<lambda>r. ntype r = NODE_TR \<and> filter is_cell (children r) \<noteq> [])
          (children table))"

definition table_cols :: "string list list \<Rightarrow> nat" where
  "table_cols cells = foldl (\<lambda>cols row. if length row > cols then length row else cols) 0 cells"

text \<open>
  The array of a row is \<^verbatim>\<open>calloc(ccount+1, sizeof(char*))\<close>: its cells and one
  \<^verbatim>\<open>NULL\<close>.  Both passes over the columns read \<^verbatim>\<open>cells[r][c]\<close> for every row and
  every \<open>c < cols\<close>.  \<open>read_grid\<close> is what they read (\<open>None\<close> for the \<^verbatim>\<open>NULL\<close>), and
  is \<open>None\<close> as a whole when a read falls outside the array of a row.
\<close>

definition read_grid :: "string list list \<Rightarrow> nat \<Rightarrow> string option list list option" where
  "read_grid cells cols =
     (if list_all (\<lambda>row. cols \<le> length row + 1) cells
      then Some (map (\<lambda>row. map (\<lambda>c. if c < length row then Some (row ! c) else None)
                              [0..<cols]) cells)
      else None)"

definition col_width :: "string option list list \<Rightarrow> nat \<Rightarrow> nat" where
  "col_width grid c =
     foldl (\<lambda>mw row. case row ! c of
                        Some s \<Rightarrow> (if length s > mw then length s else mw)
                      | None \<Rightarrow> mw)
       1 grid"

text \<open>\<^verbatim>\<open>%-*s\<close>: left-justified in a field of the given width.\<close>

definition pad_right :: "nat \<Rightarrow> string \<Rightarrow> string" where
  "pad_right w s = s @ replicate (w - length s) SP"

fun border_cols :: "int \<Rightarrow> int \<Rightarrow> nat list \<Rightarrow> pad_op list" where
  "border_cols y x [] = []"
| "border_cols y x (w # ws) =
     map (\<lambda>k. Addch y (x + int k) (CHR ''-'')) [0..<w + 2]
     @ Addch y (x + int (w + 2)) (CHR ''+'')
     # border_cols y (x + int (w + 2) + 1) ws"

definition border_row :: "int \<Rightarrow> nat list \<Rightarrow> pad_op list" where
  "border_row y colw = Addch y 0 (CHR ''+'') # border_cols y 1 colw"

fun cell_cols :: "int \<Rightarrow> int \<Rightarrow> (nat \<times> string option) list \<Rightarrow> pad_op list" where
  "cell_cols y x [] = []"
| "cell_cols y x ((w, cell) # rest) =
     Addch y x SP
     # (case cell of
          Some s \<Rightarrow> [Printw y (x + 1) (pad_right w s)]
        | None \<Rightarrow> map (\<lambda>k. Addch y (x + 1 + int k) SP) [0..<w])
     @ Addch y (x + 1 + int w) SP
     # Addch y (x + 1 + int w + 1) (CHR ''|'')
     # cell_cols y (x + 1 + int w + 2) rest"

definition data_row :: "int \<Rightarrow> nat list \<Rightarrow> string option list \<Rightarrow> pad_op list" where
  "data_row y colw cells_r = Addch y 0 (CHR ''|'') # cell_cols y 1 (zip colw cells_r)"

fun table_rows :: "int \<Rightarrow> nat list \<Rightarrow> string option list list \<Rightarrow> pad_op list \<times> int" where
  "table_rows y colw [] = ([], y)"
| "table_rows y colw (cells_r # rest) =
     (let (ops, y') = table_rows (y + 2) colw rest
      in (data_row y colw cells_r @ border_row (y + 1) colw @ ops, y'))"

datatype table_error = OutOfBoundsRead

definition render_table_node :: "int \<Rightarrow> Node \<Rightarrow> table_error + (pad_op list \<times> int)" where
  "render_table_node y table =
     (let cells = table_cells table;
          cols = table_cols cells
      in if cells = [] then Inr ([], y)
         else
           (case read_grid cells cols of
              None \<Rightarrow> Inl OutOfBoundsRead
            | Some grid \<Rightarrow>
                (let colw = map (col_width grid) [0..<cols];
                     (ops, y') = table_rows (y + 1) colw grid
                 in Inr (border_row y colw @ ops, y'))))"

section \<open>The session: \<^verbatim>\<open>main\<close>\<close>

text \<open>
  The state of \<^verbatim>\<open>main\<close> once curses is up: the tree, the scroll offset
  \<^verbatim>\<open>top_pos\<close>, the content height \<^verbatim>\<open>g_pad_cur_y\<close> and the terminal size read by
  \<^verbatim>\<open>getmaxyx\<close> at the last load.
\<close>

record session =
  s_root :: "Node option"
  top_pos :: int
  g_pad_cur_y :: int
  g_term_h :: int
  g_term_w :: int

text \<open>
  What \<^verbatim>\<open>getch\<close> delivers.  A reload carries what the environment answers during
  the load that follows: the bytes fetched (\<open>None\<close> when \<^verbatim>\<open>fetch_url\<close> returns
  \<^verbatim>\<open>NULL\<close>) and the terminal height and width.
\<close>

datatype event =
    Quit | Reload "string option" int int | Up | Down | NPage | PPage | Other

text \<open>
  How a run of \<^verbatim>\<open>main\<close> stands after the events given: the process has returned
  an exit status, the builder never returned, the builder wrote past its stack,
  or the session is waiting in \<^verbatim>\<open>getch\<close>.
\<close>

datatype outcome = Exit int | NoReturn | Undefined | Viewing session

text \<open>
  The block under \<^verbatim>\<open>if(need_load)\<close>.  The old tree is freed first, so nothing of
  the old session is used.  Of \<^verbatim>\<open>render_document\<close> only the last row \<open>y\<close> matters
  here; it is the parameter \<open>rd\<close>, a function of the tree and the width.
\<close>

definition load_page :: "(Node \<Rightarrow> int \<Rightarrow> int) \<Rightarrow> string option \<Rightarrow> int \<Rightarrow> int \<Rightarrow> outcome" where
  "load_page rd raw h w =
     (case raw of
        None \<Rightarrow> Exit 1
      | Some bytes \<Rightarrow>
          (case parse_html_tree (strip_script_style_meta (sanitize_ascii bytes)) of
             None \<Rightarrow> NoReturn
           | Some (Inl e) \<Rightarrow> Undefined
           | Some (Inr tree) \<Rightarrow>
               Viewing \<lparr>s_root = Some tree, top_pos = 0, g_pad_cur_y = rd tree w + 4,
                        g_term_h = h, g_term_w = w\<rparr>))"

text \<open>The scroll keys.\<close>

definition scroll :: "event \<Rightarrow> session \<Rightarrow> session" where
  "scroll e s =
     (case e of
        Up \<Rightarrow> (if top_pos s > 0 then s\<lparr>top_pos := top_pos s - 1\<rparr> else s)
      | Down \<Rightarrow> (if top_pos s + g_term_h s < g_pad_cur_y s then s\<lparr>top_pos := top_pos s + 1\<rparr>
                 else s)
      | NPage \<Rightarrow>
          (let t1 = top_pos s + (g_term_h s - 2);
               t2 = (if t1 + g_term_h s > g_pad_cur_y s then g_pad_cur_y s - g_term_h s else t1);
               t3 = (if t2 < 0 then 0 else t2)
           in s\<lparr>top_pos := t3\<rparr>)
      | PPage \<Rightarrow>
          (let t1 = top_pos s - (g_term_h s - 2);
               t2 = (if t1 < 0 then 0 else t1)
           in s\<lparr>top_pos := t2\<rparr>)
      | _ \<Rightarrow> s)"

fun ui_loop :: "(Node \<Rightarrow> int \<Rightarrow> int) \<Rightarrow> event list \<Rightarrow> session \<Rightarrow> outcome" where
  "ui_loop rd [] s = Viewing s"
| "ui_loop rd (e # es) s =
     (case e of
        Quit \<Rightarrow> Exit 0
      | Reload raw h w \<Rightarrow>
          (case load_page rd raw h w of
             Viewing s' \<Rightarrow> ui_loop rd es s'
           | out \<Rightarrow> out)
      | _ \<Rightarrow> ui_loop rd es (scroll e s))"

definition main :: "(Node \<Rightarrow> int \<Rightarrow> int) \<Rightarrow> string option \<Rightarrow> int \<Rightarrow> int \<Rightarrow> event list \<Rightarrow> outcome" where
  "main rd raw h w es =
     (case load_page rd raw h w of
        Viewing s \<Rightarrow> ui_loop rd es s
      | out \<Rightarrow> out)"

chapter \<open>Vocabulary of the properties\<close>

section \<open>Pointers into the tree\<close>

text \<open>A path that leads to a node of the tree, and a stack of such paths.\<close>

fun valid_path :: "Node \<Rightarrow> path \<Rightarrow> bool" where
  "valid_path n [] = True"
| "valid_path n (i # p) = (i < length (children n) \<and> valid_path (children n ! i) p)"

definition stack_ok :: "Node \<Rightarrow> path list \<Rightarrow> bool" where
  "stack_ok root stack = (stack \<noteq> [] \<and> list_all (valid_path root) stack)"

section \<open>Tag names, comments and whitespace\<close>

text \<open>
  The tag names that the opening branch compares with: the string constants of
  its \<^verbatim>\<open>strcmp\<close> calls, in their order.  A name is recognised when it is one of
  them or has the form of a header tag, \<^verbatim>\<open>h\<close> and a digit; every other name,
  the empty one included, is unrecognised.
\<close>

definition recognised_names :: "string list" where
  "recognised_names =
     [''br'', ''hr'', ''div'', ''main'', ''p'', ''pre'', ''code'', ''blockquote'', ''q'',
      ''ul'', ''ol'', ''li'', ''dl'', ''dt'', ''dd'', ''figure'', ''figcaption'', ''details'',
      ''summary'', ''table'', ''tr'', ''td'', ''th'', ''a'', ''img'', ''form'', ''input'',
      ''textarea'', ''select'', ''button'', ''header'', ''footer'', ''strong'', ''b'', ''em'',
      ''i'', ''cite'', ''dfn'', ''address'', ''mark'', ''u'', ''ins'', ''abbr'', ''del'',
      ''samp'']"

definition unrecognised :: "string \<Rightarrow> bool" where
  "unrecognised tag =
     (tag \<notin> set recognised_names
      \<and> \<not> (case tag of h # d # _ \<Rightarrow> h = CHR ''h'' \<and> isdigit d | _ \<Rightarrow> False))"

text \<open>
  Every \<^verbatim>\<open><!--\<close> in the input is followed, four bytes on or later, by a \<^verbatim>\<open>-->\<close>.
\<close>

definition comments_closed :: "string \<Rightarrow> bool" where
  "comments_closed html =
     list_all (\<lambda>pos. strncmp_eq (drop pos html) ''<!--'' 4
                       \<longrightarrow> strstr (drop (pos + 4) html) ''-->'' \<noteq> None)
       [0..<length html]"

text \<open>
  The specification's wording, for comparison with \<open>collapse_ws\<close>: every maximal
  run of whitespace is replaced by exactly one space.
\<close>

function spec_collapse :: "string \<Rightarrow> string" where
  "spec_collapse [] = []"
| "spec_collapse (c # cs) =
     (if isspace c then SP # spec_collapse (dropWhile isspace cs) else c # spec_collapse cs)"
  by pat_completeness auto
termination
proof (relation "measure length")
  fix c :: char and cs :: string
  have "length (dropWhile isspace cs) \<le> length cs" by (rule length_dropWhile_le)
  then show "(dropWhile isspace cs, c # cs) \<in> measure length" by simp
qed simp_all

section \<open>Rows of the pad\<close>

text \<open>The words of a text: its maximal runs of bytes other than the space.\<close>

fun split_sp :: "string \<Rightarrow> string \<Rightarrow> string list" where
  "split_sp w [] = [w]"
| "split_sp w (c # cs) = (if c = SP then w # split_sp [] cs else split_sp (w @ [c]) cs)"

definition words_of :: "string \<Rightarrow> string list" where
  "words_of txt = filter (\<lambda>w. w \<noteq> []) (split_sp [] txt)"

definition within :: "int \<Rightarrow> int \<Rightarrow> pad_op \<Rightarrow> bool" where
  "within indent W op = (indent \<le> op_col op \<and> op_col op + extent op \<le> W)"

text \<open>
  The texts of the word writes (\<^verbatim>\<open>mvwaddnstr\<close>) among a sequence of writes, in
  their order.
\<close>

fun word_writes :: "pad_op list \<Rightarrow> string list" where
  "word_writes [] = []"
| "word_writes (op # ops) =
     (case op of Addnstr _ _ s _ \<Rightarrow> s # word_writes ops | _ \<Rightarrow> word_writes ops)"

text \<open>What a sequence of writes puts on a row, when they follow each other.\<close>

definition op_text :: "pad_op \<Rightarrow> string" where
  "op_text op = (case op of Addch _ _ c \<Rightarrow> [c] | Addnstr _ _ s _ \<Rightarrow> s | Printw _ _ s \<Rightarrow> s)"

fun contiguous :: "int \<Rightarrow> int \<Rightarrow> pad_op list \<Rightarrow> bool" where
  "contiguous y x [] = True"
| "contiguous y x (op # ops) =
     (op_row op = y \<and> op_col op = x \<and> contiguous y (x + int (length (op_text op))) ops)"

definition is_bar :: "pad_op \<Rightarrow> bool" where
  "is_bar op = (case op of Addch _ _ c \<Rightarrow> c = CHR ''|'' | _ \<Rightarrow> False)"

text \<open>A cell of a data row as it appears: space, padded text, space, bar.\<close>

definition cell_field :: "nat \<times> string option \<Rightarrow> string" where
  "cell_field wc = SP # pad_right (fst wc) (case snd wc of Some s \<Rightarrow> s | None \<Rightarrow> []) @ [SP, CHR ''|'']"

section \<open>The scroll interval\<close>

text \<open>The interval of the scroll offset.\<close>

definition max_scroll :: "session \<Rightarrow> int" where
  "max_scroll s = max 0 (g_pad_cur_y s - g_term_h s)"

definition in_range :: "session \<Rightarrow> bool" where
  "in_range s = (0 \<le> top_pos s \<and> top_pos s \<le> max_scroll s)"

definition clamp :: "session \<Rightarrow> int \<Rightarrow> int" where
  "clamp s t = max 0 (min (max_scroll s) t)"

definition tall :: "event \<Rightarrow> bool" where
  "tall e = (case e of Reload raw h w \<Rightarrow> 2 \<le> h | _ \<Rightarrow> True)"

chapter \<open>Properties\<close>

section \<open>The Preprocessor\<close>

text \<open>
  C5.  After \<^verbatim>\<open><script>x</script>\<close> the counter is set to the offset of the end
  tag plus 8 - 1, and the \<^verbatim>\<open>i++\<close> of the loop moves it to offset plus 8, which is
  the \<^verbatim>\<open>>\<close> of the end tag (the tag has nine bytes): the \<^verbatim>\<open>>\<close> is copied to the
  output.  The same happens with \<^verbatim>\<open></style>\<close>, while the \<^verbatim>\<open>>\<close> of a \<^verbatim>\<open>meta\<close> tag is
  skipped.
\<close>

theorem script_block_leaves_closing_bracket:
  "strip_script_style_meta ''<script>x</script>y'' = ''>y''
   \<and> strip_script_style_meta ''<style>x</style>y'' = ''>y''
   \<and> strip_script_style_meta ''<meta x>y'' = ''y''"
  by code_simp

section \<open>The Tree Builder\<close>

subsection \<open>Pointers stay valid\<close>

lemma node_at_append_at_new:
  "valid_path root p
   \<Longrightarrow> node_at (append_at p child root) (p @ [length (children (node_at root p))]) = child"
proof (induction p arbitrary: root)
  case Nil
  show ?case by (simp add: node_append_child_def)
next
  case (Cons i p)
  then show ?case by simp
qed

lemma valid_path_append_at_new:
  "valid_path root p
   \<Longrightarrow> valid_path (append_at p child root) (p @ [length (children (node_at root p))])"
proof (induction p arbitrary: root)
  case Nil
  show ?case by (simp add: node_append_child_def)
next
  case (Cons i p)
  then show ?case by simp
qed

lemma valid_path_append_at:
  "valid_path root q \<Longrightarrow> valid_path (append_at p child root) q"
proof (induction p arbitrary: root q)
  case Nil
  then show ?case by (cases q) (simp_all add: node_append_child_def nth_append)
next
  case (Cons i p)
  show ?case
  proof (cases q)
    case Nil
    then show ?thesis by simp
  next
    case (Cons j q')
    with Cons.prems Cons.IH show ?thesis
      by (cases "i = j") (simp_all add: nth_list_update)
  qed
qed

lemma ntype_append_at:
  "valid_path root q \<Longrightarrow> ntype (node_at (append_at p child root) q) = ntype (node_at root q)"
proof (induction p arbitrary: root q)
  case Nil
  then show ?case by (cases q) (simp_all add: node_append_child_def nth_append)
next
  case (Cons i p)
  show ?case
  proof (cases q)
    case Nil
    then show ?thesis by simp
  next
    case (Cons j q')
    with Cons.prems Cons.IH show ?thesis
      by (cases "i = j") (simp_all add: nth_list_update)
  qed
qed

lemma find_match_Some_less: "find_match root tag stack = Some k \<Longrightarrow> Suc k < length stack"
  by (induction root tag stack arbitrary: k rule: find_match.induct) (auto split: if_splits)

lemma stack_ok_top: "stack_ok root stack \<Longrightarrow> valid_path root (top stack)"
  by (cases stack) (simp_all add: stack_ok_def top_def)

lemma stack_ok_append_at: "stack_ok root stack \<Longrightarrow> stack_ok (append_at p child root) stack"
  by (simp add: stack_ok_def list_all_iff valid_path_append_at)

lemma stack_ok_close_tag: "stack_ok root stack \<Longrightarrow> stack_ok root (close_tag root tag stack)"
proof (cases "find_match root tag stack")
  case None
  then show "stack_ok root stack \<Longrightarrow> ?thesis" by (simp add: close_tag_def)
next
  case (Some k)
  assume ok: "stack_ok root stack"
  from find_match_Some_less [OF Some] have "drop (Suc k) stack \<noteq> []" by simp
  moreover from ok have "list_all (valid_path root) (drop (Suc k) stack)"
    by (auto simp: stack_ok_def list_all_iff dest: in_set_dropD)
  ultimately show ?thesis using Some by (simp add: close_tag_def stack_ok_def)
qed

lemma stack_ok_open_tag:
  assumes "stack_ok root stack" and "open_tag tag a root stack = Some (root', stack')"
  shows "stack_ok root' stack'"
proof -
  obtain t wa push where k: "open_kind tag = (t, wa, push)" by (cases "open_kind tag") auto
  define node where "node = Node t None (if wa then parse_attrs a else []) []"
  from assms(2) k have r: "root' = append_at (top stack) node root"
    by (auto simp: open_tag_def Let_def node_def split: if_splits)
  with stack_ok_append_at [OF assms(1)] have ok: "stack_ok root' stack" by simp
  show ?thesis
  proof (cases push)
    case False
    with assms(2) k have "stack' = stack" by (auto simp: open_tag_def Let_def)
    with ok show ?thesis by simp
  next
    case True
    with assms(2) k have "stack' = (top stack @ [length (children (node_at root (top stack)))]) # stack"
      by (auto simp: open_tag_def Let_def split: if_splits)
    moreover have "valid_path root' (top stack @ [length (children (node_at root (top stack)))])"
      unfolding r by (rule valid_path_append_at_new) (rule stack_ok_top [OF assms(1)])
    ultimately show ?thesis using ok by (simp add: stack_ok_def)
  qed
qed

lemma stack_ok_add_text: "stack_ok root stack \<Longrightarrow> stack_ok (add_text chunk root stack) stack"
  by (simp add: add_text_def Let_def stack_ok_append_at)

text \<open>
  Every pointer on the stack points into the tree, and the stack is never
  empty: the invariant of the main loop that makes \<open>top\<close> and \<open>node_at\<close> read what
  the C code reads.
\<close>

lemma parse_iter_stack_ok:
  assumes "stack_ok root stack" and "parse_iter html pos root stack = Next pos' root' stack'"
  shows "stack_ok root' stack'"
  using assms
  by (auto simp: parse_iter_def Let_def stack_ok_close_tag stack_ok_add_text
      split: if_splits option.splits prod.splits dest: stack_ok_open_tag)

subsection \<open>Closing tags and the open-element stack\<close>

lemma find_match_None:
  "(\<forall>k < length stack - 1. \<not> accepts (ntype (node_at root (stack ! k))) name)
   \<Longrightarrow> find_match root name stack = None"
proof (induction root name stack rule: find_match.induct)
  case (3 root tag p q ps)
  from "3.prems" have np: "\<not> accepts (ntype (node_at root p)) tag" by auto
  have "\<forall>k < length (q # ps) - 1. \<not> accepts (ntype (node_at root ((q # ps) ! k))) tag"
  proof (intro allI impI)
    fix k assume "k < length (q # ps) - 1"
    then have "Suc k < length (p # q # ps) - 1" by simp
    with "3.prems" have "\<not> accepts (ntype (node_at root ((p # q # ps) ! Suc k))) tag" by blast
    then show "\<not> accepts (ntype (node_at root ((q # ps) ! k))) tag" by simp
  qed
  with 3 np show ?case by simp
qed simp_all

lemma find_match_Some:
  "k < length stack - 1 \<Longrightarrow> accepts (ntype (node_at root (stack ! k))) name
   \<Longrightarrow> (\<forall>j < k. \<not> accepts (ntype (node_at root (stack ! j))) name)
   \<Longrightarrow> find_match root name stack = Some k"
proof (induction root name stack arbitrary: k rule: find_match.induct)
  case (3 root tag p q ps)
  show ?case
  proof (cases k)
    case 0
    with "3.prems" show ?thesis by simp
  next
    case (Suc k')
    with "3.prems" have np: "\<not> accepts (ntype (node_at root p)) tag" by auto
    have a: "k' < length (q # ps) - 1" using "3.prems"(1) Suc by simp
    have b: "accepts (ntype (node_at root ((q # ps) ! k'))) tag" using "3.prems"(2) Suc by simp
    have c: "\<forall>j < k'. \<not> accepts (ntype (node_at root ((q # ps) ! j))) tag"
    proof (intro allI impI)
      fix j assume "j < k'"
      then have "Suc j < k" using Suc by simp
      with "3.prems"(3) have "\<not> accepts (ntype (node_at root ((p # q # ps) ! Suc j))) tag" by blast
      then show "\<not> accepts (ntype (node_at root ((q # ps) ! j))) tag" by simp
    qed
    from "3.IH" [OF np a b c] np Suc show ?thesis by simp
  qed
qed simp_all

lemma accepts_span: "\<not> accepts t ''span''"
  by (cases t) (simp_all add: accepts_def)

lemma accepts_header_levels:
  "accepts NODE_HEADER ''h1'' \<and> accepts NODE_HEADER ''h2'' \<and> accepts NODE_HEADER ''h3''
   \<and> accepts NODE_HEADER ''h4'' \<and> accepts NODE_HEADER ''h5'' \<and> accepts NODE_HEADER ''h6''"
  by (simp add: accepts_def)

lemma parse_iter_closing_tag:
  assumes "html ! pos = CHR ''<''"
    and "strchr (drop (pos + 1) html) (CHR ''>'') = Some k"
    and "\<not> strncmp_eq (take k (drop (pos + 1) html)) ''!--'' 3"
    and "scan_tag (take k (drop (pos + 1) html)) = (True, name, a)"
  shows "parse_iter html pos root stack = Next (pos + 1 + k + 1) root (close_tag root name stack)"
  using assms by (simp add: parse_iter_def Let_def)

text \<open>
  C1.  A closing tag \<^verbatim>\<open></name>\<close> leaves the tree as it is and replaces the stack
  by \<open>close_tag root name stack\<close>.  The stack is searched from its top towards
  the root, the root entry itself (the last one) not being looked at.  If entry
  \<open>k\<close> (counted from the top) is the nearest one whose node type accepts the
  name, the stack is popped down to and including that entry; if no entry above
  the root accepts the name, the stack is unchanged.  A header node accepts
  each of \<^verbatim>\<open>h1\<close> to \<^verbatim>\<open>h6\<close>, and no node type accepts \<^verbatim>\<open>span\<close>, so \<^verbatim>\<open></span>\<close>
  never pops anything.
\<close>

theorem closing_tag_pops_to_nearest_match:
  "(html ! pos = CHR ''<'' \<and> strchr (drop (pos + 1) html) (CHR ''>'') = Some g
      \<and> \<not> strncmp_eq (take g (drop (pos + 1) html)) ''!--'' 3
      \<and> scan_tag (take g (drop (pos + 1) html)) = (True, name, a)
    \<longrightarrow> parse_iter html pos root stack
          = Next (pos + 1 + g + 1) root (close_tag root name stack))
   \<and> (\<forall>k. k < length stack - 1 \<and> accepts (ntype (node_at root (stack ! k))) name
         \<and> (\<forall>j < k. \<not> accepts (ntype (node_at root (stack ! j))) name)
       \<longrightarrow> close_tag root name stack = drop (Suc k) stack)
   \<and> ((\<forall>k < length stack - 1. \<not> accepts (ntype (node_at root (stack ! k))) name)
       \<longrightarrow> close_tag root name stack = stack)
   \<and> (accepts NODE_HEADER ''h1'' \<and> accepts NODE_HEADER ''h2'' \<and> accepts NODE_HEADER ''h3''
       \<and> accepts NODE_HEADER ''h4'' \<and> accepts NODE_HEADER ''h5'' \<and> accepts NODE_HEADER ''h6'')
   \<and> close_tag root ''span'' stack = stack"
proof (intro conjI allI impI)
  assume "html ! pos = CHR ''<'' \<and> strchr (drop (pos + 1) html) (CHR ''>'') = Some g
      \<and> \<not> strncmp_eq (take g (drop (pos + 1) html)) ''!--'' 3
      \<and> scan_tag (take g (drop (pos + 1) html)) = (True, name, a)"
  then show "parse_iter html pos root stack
          = Next (pos + 1 + g + 1) root (close_tag root name stack)"
    using parse_iter_closing_tag by blast
next
  fix k
  assume "k < length stack - 1 \<and> accepts (ntype (node_at root (stack ! k))) name
         \<and> (\<forall>j < k. \<not> accepts (ntype (node_at root (stack ! j))) name)"
  then have "find_match root name stack = Some k"
    using find_match_Some [of k stack root name] by blast
  then show "close_tag root name stack = drop (Suc k) stack"
    by (simp add: close_tag_def)
next
  assume "\<forall>k < length stack - 1. \<not> accepts (ntype (node_at root (stack ! k))) name"
  then have "find_match root name stack = None" by (rule find_match_None)
  then show "close_tag root name stack = stack" by (simp add: close_tag_def)
next
  have "find_match root ''span'' stack = None"
    by (rule find_match_None) (simp add: accepts_span)
  then show "close_tag root ''span'' stack = stack" by (simp add: close_tag_def)
qed (simp_all add: accepts_header_levels)

text \<open>
  The stack of \<^verbatim>\<open><p><b>\<close> (bold, paragraph, root from the top): \<^verbatim>\<open></P>\<close> skips the
  bold node and pops both; \<^verbatim>\<open></em>\<close> matches nothing and pops nothing.
\<close>

theorem closing_tag_pops_to_nearest_match_witness:
  "parse_iter ''</P>x'' 0
       (Node NODE_DIV None [] [Node NODE_PARAGRAPH None [] [Node NODE_BOLD None [] []]])
       [[0, 0], [0], []]
     = Next 4 (Node NODE_DIV None [] [Node NODE_PARAGRAPH None [] [Node NODE_BOLD None [] []]])
         [[]]
   \<and> accepts (ntype (node_at
       (Node NODE_DIV None [] [Node NODE_PARAGRAPH None [] [Node NODE_BOLD None [] []]])
       ([[0, 0], [0], []] ! 1))) ''p''
   \<and> \<not> accepts (ntype (node_at
       (Node NODE_DIV None [] [Node NODE_PARAGRAPH None [] [Node NODE_BOLD None [] []]])
       ([[0, 0], [0], []] ! 0))) ''p''
   \<and> close_tag
       (Node NODE_DIV None [] [Node NODE_PARAGRAPH None [] [Node NODE_BOLD None [] []]])
       ''p'' [[0, 0], [0], []] = [[]]
   \<and> close_tag
       (Node NODE_DIV None [] [Node NODE_PARAGRAPH None [] [Node NODE_BOLD None [] []]])
       ''em'' [[0, 0], [0], []] = [[0, 0], [0], []]"
proof -
  let ?R = "Node NODE_DIV None [] [Node NODE_PARAGRAPH None [] [Node NODE_BOLD None [] []]]"
  let ?S = "[[0, 0], [0], []] :: path list"
  have a: "accepts (ntype (node_at ?R (?S ! 1))) ''p''"
    by (simp add: accepts_def)
  have b: "\<not> accepts (ntype (node_at ?R (?S ! 0))) ''p''"
    by (simp add: accepts_def)
  have "1 < length ?S - 1 \<and> accepts (ntype (node_at ?R (?S ! 1))) ''p''
        \<and> (\<forall>j < 1. \<not> accepts (ntype (node_at ?R (?S ! j))) ''p'')"
    using a b by simp
  with closing_tag_pops_to_nearest_match [where stack = ?S and root = ?R and name = "''p''"]
  have c: "close_tag ?R ''p'' ?S = drop (Suc 1) ?S" by blast
  have "\<not> accepts (ntype (node_at ?R (?S ! k))) ''em''" if "k < length ?S - 1" for k
  proof -
    from that have "k = 0 \<or> k = 1" by auto
    then show ?thesis by (auto simp: accepts_def)
  qed
  with closing_tag_pops_to_nearest_match [where stack = ?S and root = ?R and name = "''em''"]
  have d: "close_tag ?R ''em'' ?S = ?S" by blast
  have "''</P>x'' ! 0 = CHR ''<'' \<and> strchr (drop (0 + 1) ''</P>x'') (CHR ''>'') = Some 2
      \<and> \<not> strncmp_eq (take 2 (drop (0 + 1) ''</P>x'')) ''!--'' 3
      \<and> scan_tag (take 2 (drop (0 + 1) ''</P>x'')) = (True, ''p'', [])"
    by code_simp
  with closing_tag_pops_to_nearest_match
    [where html = "''</P>x''" and pos = 0 and g = 2 and name = "''p''" and a = "[]"
       and root = ?R and stack = ?S]
  have e: "parse_iter ''</P>x'' 0 ?R ?S = Next (0 + 1 + 2 + 1) ?R (close_tag ?R ''p'' ?S)"
    by blast
  from a b c d e show ?thesis by simp
qed

subsection \<open>Unrecognised tag names\<close>

lemma unrecognised_open_kind:
  "unrecognised tag \<Longrightarrow> open_kind tag = (NODE_DIV, True, True)"
  by (simp add: unrecognised_def recognised_names_def open_kind_def is_header_tag_def)

text \<open>The other names yield another kind of node, \<^verbatim>\<open>div\<close> apart.\<close>

lemma recognised_open_kind:
  assumes "\<not> unrecognised tag" and "tag \<noteq> ''div''"
  shows "fst (open_kind tag) \<noteq> NODE_DIV"
proof (cases "is_header_tag tag")
  case True
  with assms(2) have "open_kind tag = (NODE_HEADER, True, True)"
    by (auto simp: open_kind_def is_header_tag_def isdigit_def code_of_def split: list.splits)
  then show ?thesis by simp
next
  case False
  with assms(1) have "tag \<in> set recognised_names"
    by (simp add: unrecognised_def is_header_tag_def)
  with assms(2) False show ?thesis
    by (auto simp: recognised_names_def open_kind_def)
qed

lemma unrecognised_not_accepted:
  assumes "unrecognised tag" and "case tag of [] \<Rightarrow> True | c # _ \<Rightarrow> c \<noteq> CHR ''h''"
  shows "\<not> accepts t tag"
proof
  assume a: "accepts t tag"
  then have "tag \<in> {''div'', ''main'', ''header'', ''footer'', ''p'', ''pre'', ''code'',
      ''blockquote'', ''q'', ''ul'', ''ol'', ''li'', ''table'', ''tr'', ''td'', ''th'', ''a'',
      ''details'', ''summary'', ''figure'', ''figcaption''}"
    using assms(2) by (cases t) (auto simp: accepts_def split: list.splits)
  then have "tag \<in> set recognised_names"
    by (auto simp: recognised_names_def)
  with assms(1) show False by (simp add: unrecognised_def)
qed

text \<open>The search for a match, entry by entry, above the root.\<close>

lemma find_match_Cons:
  "ps \<noteq> [] \<Longrightarrow>
   find_match r n (p # ps)
     = (if accepts (ntype (node_at r p)) n then Some 0 else map_option Suc (find_match r n ps))"
  by (cases ps) simp_all

lemma find_match_skip:
  assumes "\<forall>q \<in> set inner. \<not> accepts (ntype (node_at r q)) n" and "outer \<noteq> []"
  shows "find_match r n (inner @ outer)
           = map_option (\<lambda>k. length inner + k) (find_match r n outer)"
  using assms
proof (induction inner)
  case Nil
  then show ?case by (simp add: option.map_ident)
next
  case (Cons a as)
  then have "find_match r n (a # (as @ outer)) = map_option Suc (find_match r n (as @ outer))"
    by (subst find_match_Cons) simp_all
  with Cons show ?case by (simp add: option.map_comp o_def)
qed

lemma find_match_in_above:
  assumes "\<exists>q \<in> set inner. accepts (ntype (node_at r q)) n" and "outer \<noteq> []"
  shows "\<exists>j < length inner. find_match r n (inner @ outer) = Some j"
  using assms
proof (induction inner)
  case Nil
  then show ?case by simp
next
  case (Cons a as)
  have ne: "as @ outer \<noteq> []" using Cons.prems(2) by simp
  show ?case
  proof (cases "accepts (ntype (node_at r a)) n")
    case True
    then have "find_match r n ((a # as) @ outer) = Some 0"
      using find_match_Cons [OF ne, of r n a] by simp
    then show ?thesis by auto
  next
    case False
    with Cons.prems(1) have "\<exists>q \<in> set as. accepts (ntype (node_at r q)) n" by simp
    from Cons.IH [OF this Cons.prems(2)] obtain j
      where j: "j < length as" "find_match r n (as @ outer) = Some j" by blast
    from False j(2) have "find_match r n ((a # as) @ outer) = Some (Suc j)"
      using find_match_Cons [OF ne, of r n a] by simp
    with j(1) show ?thesis by auto
  qed
qed

text \<open>
  A closing tag and a \<^verbatim>\<open>NODE_DIV\<close> entry anywhere on the stack, with the entries
  \<open>inner\<close> above it (opened inside it) and the entries \<open>outer\<close> below it, the root among
  them.
\<close>

lemma close_tag_div_entry:
  assumes d: "ntype (node_at r p) = NODE_DIV" and b: "outer \<noteq> []"
  shows "\<forall>q \<in> set inner. \<not> accepts (ntype (node_at r q)) ''div''
         \<Longrightarrow> close_tag r ''div'' (inner @ p # outer) = outer"
    and "n \<noteq> ''div'' \<or> (\<exists>q \<in> set inner. accepts (ntype (node_at r q)) ''div'')
         \<Longrightarrow> (\<exists>m \<le> length inner. close_tag r n (inner @ p # outer) = drop m inner @ p # outer)
             \<or> close_tag r n (inner @ p # outer) = close_tag r n outer
               \<and> length (close_tag r n outer) < length outer"
proof -
  have pb: "p # outer \<noteq> []" by simp
  {
    assume na: "\<forall>q \<in> set inner. \<not> accepts (ntype (node_at r q)) ''div''"
    have "find_match r ''div'' (p # outer) = Some 0"
      using find_match_Cons [OF b, of r "''div''" p] d by (simp add: accepts_def)
    with find_match_skip [OF na pb]
    have "find_match r ''div'' (inner @ p # outer) = Some (length inner)" by simp
    then show "close_tag r ''div'' (inner @ p # outer) = outer"
      by (simp add: close_tag_def)
  }
  assume h: "n \<noteq> ''div'' \<or> (\<exists>q \<in> set inner. accepts (ntype (node_at r q)) ''div'')"
  show "(\<exists>m \<le> length inner. close_tag r n (inner @ p # outer) = drop m inner @ p # outer)
        \<or> close_tag r n (inner @ p # outer) = close_tag r n outer
          \<and> length (close_tag r n outer) < length outer"
  proof (cases "\<exists>q \<in> set inner. accepts (ntype (node_at r q)) n")
    case True
    from find_match_in_above [OF True pb] obtain j
      where j: "j < length inner" "find_match r n (inner @ p # outer) = Some j" by blast
    then have "close_tag r n (inner @ p # outer) = drop (Suc j) inner @ p # outer"
      by (simp add: close_tag_def)
    moreover from j(1) have "Suc j \<le> length inner" by simp
    ultimately show ?thesis by blast
  next
    case False
    then have na: "\<forall>q \<in> set inner. \<not> accepts (ntype (node_at r q)) n" by simp
    with h have "n \<noteq> ''div''" by blast
    with d have np: "\<not> accepts (ntype (node_at r p)) n" by (simp add: accepts_def)
    have fm: "find_match r n (inner @ p # outer)
                = map_option (\<lambda>k. length inner + k) (map_option Suc (find_match r n outer))"
      using find_match_skip [OF na pb] find_match_Cons [OF b, of r n p] np by simp
    show ?thesis
    proof (cases "find_match r n outer")
      case None
      with fm have "close_tag r n (inner @ p # outer) = drop 0 inner @ p # outer"
        by (simp add: close_tag_def)
      then show ?thesis by blast
    next
      case (Some k)
      with fm have "close_tag r n (inner @ p # outer) = drop (Suc k) outer"
        and "close_tag r n outer = drop (Suc k) outer"
        by (simp_all add: close_tag_def)
      moreover have "length (drop (Suc k) outer) < length outer" using b by simp
      ultimately show ?thesis by simp
    qed
  qed
qed

text \<open>
  C10, as the code has it.  An unrecognised opening tag pushes a \<^verbatim>\<open>NODE_DIV\<close>
  container, which accepts the closing name \<^verbatim>\<open>div\<close> and no other, so not the
  element's own name.  When that name does not begin with \<^verbatim>\<open>h\<close>, no node type
  accepts it and the element's own closing tag changes nothing.  Wherever the
  container sits on the stack, with the entries \<open>inner\<close> above it and the entries
  \<open>outer\<close> below it, a \<^verbatim>\<open></div>\<close> that finds no entry accepting \<^verbatim>\<open>div\<close> above it
  pops the container, with all that lies above it.  Every other closing tag
  (another name, or \<^verbatim>\<open></div>\<close> with such an entry above) either leaves the
  container and all below it on the stack, popping at most entries above it, or
  matches an entry below the container and pops the container together with
  that entry.
\<close>

theorem unknown_tag_pushes_div_container:
  "unrecognised tag \<longrightarrow>
     open_kind tag = (NODE_DIV, True, True)
     \<and> (stack_ok root stack \<and> length stack < STACK_SLOTS \<longrightarrow>
        (\<exists>root' ptr. open_tag tag a root stack = Some (root', ptr # stack)
            \<and> node_at root' ptr = Node NODE_DIV None (parse_attrs a) []))
     \<and> (accepts NODE_DIV n \<longleftrightarrow> n = ''div'')
     \<and> \<not> accepts NODE_DIV tag
     \<and> ((case tag of [] \<Rightarrow> True | c # _ \<Rightarrow> c \<noteq> CHR ''h'') \<longrightarrow> close_tag r tag st = st)
     \<and> (ntype (node_at r p) = NODE_DIV \<and> outer \<noteq> [] \<longrightarrow>
          ((\<forall>q \<in> set inner. \<not> accepts (ntype (node_at r q)) ''div'')
             \<longrightarrow> close_tag r ''div'' (inner @ p # outer) = outer)
          \<and> (n \<noteq> ''div'' \<or> (\<exists>q \<in> set inner. accepts (ntype (node_at r q)) ''div'')
               \<longrightarrow> (\<exists>m \<le> length inner.
                      close_tag r n (inner @ p # outer) = drop m inner @ p # outer)
                   \<or> close_tag r n (inner @ p # outer) = close_tag r n outer
                     \<and> length (close_tag r n outer) < length outer))"
proof (intro impI conjI)
  assume u: "unrecognised tag"
  then show k: "open_kind tag = (NODE_DIV, True, True)" by (rule unrecognised_open_kind)
  from u have "tag \<noteq> ''div''" by (auto simp: unrecognised_def recognised_names_def)
  then show "\<not> accepts NODE_DIV tag" by (simp add: accepts_def)
  show "accepts NODE_DIV n \<longleftrightarrow> n = ''div''" by (simp add: accepts_def)
  {
    assume ok: "stack_ok root stack \<and> length stack < STACK_SLOTS"
    let ?node = "Node NODE_DIV None (parse_attrs a) []"
    let ?ptr = "top stack @ [length (children (node_at root (top stack)))]"
    from k ok have "open_tag tag a root stack = Some (append_at (top stack) ?node root, ?ptr # stack)"
      by (simp add: open_tag_def Let_def)
    moreover have "node_at (append_at (top stack) ?node root) ?ptr = ?node"
      using ok by (intro node_at_append_at_new stack_ok_top) simp
    ultimately show "\<exists>root' ptr. open_tag tag a root stack = Some (root', ptr # stack)
            \<and> node_at root' ptr = Node NODE_DIV None (parse_attrs a) []"
      by blast
  }
  {
    assume "case tag of [] \<Rightarrow> True | c # _ \<Rightarrow> c \<noteq> CHR ''h''"
    with u have "\<not> accepts t tag" for t by (rule unrecognised_not_accepted)
    then have "find_match r tag st = None" by (intro find_match_None) simp
    then show "close_tag r tag st = st" by (simp add: close_tag_def)
  }
  {
    assume d: "ntype (node_at r p) = NODE_DIV \<and> outer \<noteq> []"
    {
      assume "\<forall>q \<in> set inner. \<not> accepts (ntype (node_at r q)) ''div''"
      with d show "close_tag r ''div'' (inner @ p # outer) = outer"
        using close_tag_div_entry(1) by blast
    }
    assume "n \<noteq> ''div'' \<or> (\<exists>q \<in> set inner. accepts (ntype (node_at r q)) ''div'')"
    with d show "(\<exists>m \<le> length inner.
                      close_tag r n (inner @ p # outer) = drop m inner @ p # outer)
                   \<or> close_tag r n (inner @ p # outer) = close_tag r n outer
                     \<and> length (close_tag r n outer) < length outer"
      using close_tag_div_entry(2) [of r p outer n inner] by blast
  }
qed

text \<open>
  \<^verbatim>\<open>span\<close> on the empty stack; then the stack of \<^verbatim>\<open><span><b>\<close> (bold, container,
  root from the top), where \<^verbatim>\<open></span>\<close> changes nothing and \<^verbatim>\<open></div>\<close> walks past
  the bold node and pops the container with it; and the stack of
  \<^verbatim>\<open><p><span><b>\<close>, where \<^verbatim>\<open></p>\<close> pops the container together with the paragraph
  below it.
\<close>

theorem unknown_tag_pushes_div_container_witness:
  "unrecognised ''span''
   \<and> stack_ok (node_create NODE_DIV) [[]]
   \<and> (\<exists>root' ptr. open_tag ''span'' '' id=x'' (node_create NODE_DIV) [[]] = Some (root', ptr # [[]])
         \<and> node_at root' ptr = Node NODE_DIV None (parse_attrs '' id=x'') [])
   \<and> close_tag (Node NODE_DIV None [] [Node NODE_DIV None [] [Node NODE_BOLD None [] []]])
        ''span'' [[0, 0], [0], []] = [[0, 0], [0], []]
   \<and> close_tag (Node NODE_DIV None [] [Node NODE_DIV None [] [Node NODE_BOLD None [] []]])
        ''div'' ([[0, 0]] @ [0] # [[]]) = [[]]
   \<and> close_tag (Node NODE_DIV None []
          [Node NODE_PARAGRAPH None [] [Node NODE_DIV None [] [Node NODE_BOLD None [] []]]])
        ''p'' ([[0, 0, 0]] @ [0, 0] # [[0], []]) = [[]]"
proof -
  let ?R = "Node NODE_DIV None [] [Node NODE_DIV None [] [Node NODE_BOLD None [] []]]"
  let ?Q = "Node NODE_DIV None []
          [Node NODE_PARAGRAPH None [] [Node NODE_DIV None [] [Node NODE_BOLD None [] []]]]"
  have u: "unrecognised ''span''" by code_simp
  have ok: "stack_ok (node_create NODE_DIV) [[]] \<and> length [[]::nat list] < STACK_SLOTS"
    by (simp add: stack_ok_def STACK_SLOTS_def)
  have h: "case ''span'' of [] \<Rightarrow> True | c # _ \<Rightarrow> c \<noteq> CHR ''h''" by simp
  have d: "ntype (node_at ?R [0]) = NODE_DIV \<and> [[]::nat list] \<noteq> []" by simp
  have nb: "\<forall>q \<in> set [[0, 0]]. \<not> accepts (ntype (node_at ?R q)) ''div''"
    by (simp add: accepts_def)
  have dq: "ntype (node_at ?Q [0, 0]) = NODE_DIV \<and> [[0], []::nat list] \<noteq> []" by simp
  have np: "''p'' \<noteq> ''div'' \<or> (\<exists>q \<in> set [[0, 0, 0]]. accepts (ntype (node_at ?Q q)) ''div'')"
    by simp
  from unknown_tag_pushes_div_container
    [where tag = "''span''" and root = "node_create NODE_DIV" and stack = "[[]]"
       and a = "'' id=x''" and r = ?R and st = "[[0, 0], [0], []]"
       and p = "[0]" and outer = "[[]]" and inner = "[[0, 0]]"] u ok h d nb
  have a: "\<exists>root' ptr. open_tag ''span'' '' id=x'' (node_create NODE_DIV) [[]]
              = Some (root', ptr # [[]])
            \<and> node_at root' ptr = Node NODE_DIV None (parse_attrs '' id=x'') []"
    and b: "close_tag ?R ''span'' [[0, 0], [0], []] = [[0, 0], [0], []]"
    and c: "close_tag ?R ''div'' ([[0, 0]] @ [0] # [[]]) = [[]]"
    by blast+
  from unknown_tag_pushes_div_container
    [where tag = "''span''" and n = "''p''" and r = ?Q and p = "[0, 0]" and outer = "[[0], []]"
       and inner = "[[0, 0, 0]]"] u dq np
  have e: "(\<exists>m \<le> length [[0, 0, 0::nat]].
              close_tag ?Q ''p'' ([[0, 0, 0]] @ [0, 0] # [[0], []])
                = drop m [[0, 0, 0]] @ [0, 0] # [[0], []])
           \<or> close_tag ?Q ''p'' ([[0, 0, 0]] @ [0, 0] # [[0], []]) = close_tag ?Q ''p'' [[0], []]
             \<and> length (close_tag ?Q ''p'' [[0], []]) < length [[0], []::nat list]"
    by blast
  have p: "close_tag ?Q ''p'' [[0], []] = [[]]" by (simp add: close_tag_def accepts_def)
  have f: "close_tag ?Q ''p'' ([[0, 0, 0]] @ [0, 0] # [[0], []]) = [[]]"
  proof -
    have "close_tag ?Q ''p'' ([[0, 0, 0]] @ [0, 0] # [[0], []])
            \<noteq> drop m [[0, 0, 0]] @ [0, 0] # [[0], []]" for m
      by (simp add: close_tag_def accepts_def)
    with e p show ?thesis by auto
  qed
  from u ok a b c f show ?thesis by simp
qed

text \<open>
  C10, as stated, keeps the element open until an enclosing element is closed
  or the input ends.  In \<^verbatim>\<open><div><span>x</span></div>y\<close> the \<^verbatim>\<open></div>\<close> finds the
  container of \<^verbatim>\<open>span\<close> first and closes it alone; the enclosing \<^verbatim>\<open>div\<close> stays
  open and receives \<^verbatim>\<open>y\<close>.
\<close>

theorem div_end_tag_closes_unknown_element:
  "parse_html_tree ''<div><span>x</span></div>y''
     = Some (Inr (Node NODE_DIV None []
         [Node NODE_DIV None [] [Node NODE_DIV None [] [text_node ''x''], text_node ''y'']]))"
  by code_simp

text \<open>
  The container need not be on top of the stack for that: in \<^verbatim>\<open><span><b></div>x\<close>
  the \<^verbatim>\<open></div>\<close> walks past the open bold node and closes the container of \<^verbatim>\<open>span\<close>
  with it, so that \<^verbatim>\<open>x\<close> becomes a child of the root.
\<close>

lemma div_end_tag_reaches_unknown_element_below_top:
  "parse_html_tree ''<span><b></div>x''
     = Some (Inr (Node NODE_DIV None []
         [Node NODE_DIV None [] [Node NODE_BOLD None [] []], text_node ''x'']))"
  by code_simp

text \<open>
  A name that begins with \<^verbatim>\<open>h\<close> is matched by an open header, whatever follows
  the \<^verbatim>\<open>h\<close>: \<^verbatim>\<open>hgroup\<close> is not a recognised tag name, and inside \<^verbatim>\<open><h1>\<close> the tag
  \<^verbatim>\<open></hgroup>\<close> pops the header and the container of \<^verbatim>\<open>hgroup\<close> with it, so that
  the text after it becomes a child of the root.
\<close>

lemma unknown_h_tag_popped_by_own_closing_tag:
  "unrecognised ''hgroup''
   \<and> open_kind ''hgroup'' = (NODE_DIV, True, True)
   \<and> open_tag ''hgroup'' [] (Node NODE_DIV None [] [Node NODE_HEADER None [] []]) [[0], []]
       = Some (Node NODE_DIV None [] [Node NODE_HEADER None [] [Node NODE_DIV None [] []]],
               [[0, 0], [0], []])
   \<and> close_tag (Node NODE_DIV None [] [Node NODE_HEADER None [] [Node NODE_DIV None [] []]])
         ''hgroup'' [[0, 0], [0], []] = [[]]
   \<and> parse_html_tree ''<h1><hgroup>a</hgroup>b''
       = Some (Inr (Node NODE_DIV None []
           [Node NODE_HEADER None [] [Node NODE_DIV None [] [text_node ''a'']],
            text_node ''b'']))"
  by code_simp

subsection \<open>Comments without an end\<close>

lemma parse_loop_Some_not_stuck:
  "parse_loop html pos root stack = Some y
   \<Longrightarrow> \<not> (pos < length html \<and> parse_iter html pos root stack = Next pos root stack)"
proof (induction rule: parse_loop.raw_induct [rotated 1, consumes 1])
  case (1 f html pos root stack y)
  show ?case
  proof
    assume st: "pos < length html \<and> parse_iter html pos root stack = Next pos root stack"
    with 1(2) have "f html pos root stack = Some y" by simp
    from 1(1) [OF this] st show False by blast
  qed
qed

lemma parse_loop_stuck:
  assumes "pos < length html" and "parse_iter html pos root stack = Next pos root stack"
  shows "parse_loop html pos root stack = None"
proof (cases "parse_loop html pos root stack")
  case (Some y)
  from parse_loop_Some_not_stuck [OF this] assms show ?thesis by blast
qed simp

text \<open>
  C3.  On \<^verbatim>\<open><!-- x >\<close> the builder finds the \<^verbatim>\<open>>\<close>, recognises a comment, finds no
  \<^verbatim>\<open>-->\<close>, leaves \<open>pos\<close> where it is and goes round the loop again: it never
  returns.
\<close>

theorem unterminated_comment_never_returns:
  "parse_html_tree ''<!-- x >'' = None"
  unfolding parse_html_tree_def
  by (rule parse_loop_stuck) (simp, code_simp)

subsection \<open>What the builder returns\<close>

lemma strchr_Some: "strchr s c = Some k \<Longrightarrow> k < length s \<and> s ! k = c"
  by (induction s arbitrary: k) (auto split: if_splits)

lemma strstr_Some_le: "strstr s n = Some e \<Longrightarrow> e + length n \<le> length s"
proof (induction s arbitrary: e)
  case Nil
  then show ?case by (simp split: if_splits)
next
  case (Cons c cs)
  show ?case
  proof (cases "take (length n) (c # cs) = n")
    case True
    then have "length n = length (take (length n) (c # cs))" by simp
    also have "\<dots> \<le> length (c # cs)" by simp
    finally show ?thesis using Cons.prems True by simp
  next
    case False
    with Cons.prems obtain e' where "strstr cs n = Some e'" "e = Suc e'" by auto
    with Cons.IH [of e'] show ?thesis by simp
  qed
qed

lemma count_take_mono:
  assumes "i \<le> j"
  shows "count_list (take i xs) c \<le> count_list (take j xs) c"
proof -
  from assms obtain d where "j = i + d" using le_Suc_ex by blast
  then have "take j xs = take i xs @ take d (drop i xs)" by (simp add: take_add)
  then show ?thesis by simp
qed

lemma count_take_le: "count_list (take i xs) c \<le> count_list xs c"
  using count_take_mono [of i "max i (length xs)" xs c] by simp

lemma count_take_Suc:
  "i < length xs \<Longrightarrow> xs ! i = c \<Longrightarrow> count_list (take (Suc i) xs) c = Suc (count_list (take i xs) c)"
  by (simp add: take_Suc_conv_app_nth)

lemma close_tag_length: "length (close_tag root tag stack) \<le> length stack"
  by (simp add: close_tag_def split: option.splits)

lemma open_tag_cases:
  "(open_tag tag a root stack = None \<and> STACK_SLOTS \<le> length stack)
   \<or> (\<exists>root' stack'. open_tag tag a root stack = Some (root', stack')
         \<and> length stack' \<le> Suc (length stack))"
  by (simp add: open_tag_def Let_def split: prod.splits)

text \<open>
  One round of the loop, away from a comment without an end: it stops, or it
  overruns a full stack on an opening tag, or it moves forward, and the stack
  grows by at most one entry, on a \<^verbatim>\<open><\<close> only.
\<close>

lemma parse_iter_progress:
  assumes cc: "comments_closed html"
    and pos: "pos < length html"
  shows "parse_iter html pos root stack = Stop
         \<or> (parse_iter html pos root stack = Overrun \<and> STACK_SLOTS \<le> length stack)
         \<or> (\<exists>pos' root' stack'. parse_iter html pos root stack = Next pos' root' stack'
              \<and> pos < pos' \<and> pos' \<le> length html
              \<and> (length stack' \<le> length stack
                  \<or> html ! pos = CHR ''<'' \<and> length stack' \<le> Suc (length stack)))"
proof (cases "html ! pos = CHR ''<''")
  case False
  define chunk where "chunk = takeWhile (\<lambda>c. c \<noteq> CHR ''<'') (drop pos html)"
  have it: "parse_iter html pos root stack = Next (pos + length chunk) (add_text chunk root stack) stack"
    using False by (simp add: parse_iter_def chunk_def Let_def)
  have "drop pos html = html ! pos # drop (Suc pos) html"
    using pos by (simp add: Cons_nth_drop_Suc)
  then have "chunk \<noteq> []" using False by (simp add: chunk_def)
  then have a: "pos < pos + length chunk" by simp
  have "length chunk \<le> length (drop pos html)"
    unfolding chunk_def by (rule length_takeWhile_le)
  then have b: "pos + length chunk \<le> length html" using pos by simp
  from it a b show ?thesis by blast
next
  case lt: True
  show ?thesis
  proof (cases "strchr (drop (pos + 1) html) (CHR ''>'')")
    case None
    with lt show ?thesis by (simp add: parse_iter_def)
  next
    case (Some k)
    define gt where "gt = pos + 1 + k"
    define inside where "inside = take k (drop (pos + 1) html)"
    from strchr_Some [OF Some] have k: "k < length (drop (pos + 1) html)" by simp
    then have gt: "gt < length html" by (simp add: gt_def)
    show ?thesis
    proof (cases "strncmp_eq inside ''!--'' 3")
      case True
      then have t3: "take 3 inside = ''!--''" by (simp add: strncmp_eq_def)
      then have "length (take 3 inside) = 3" by simp
      then have "3 \<le> length inside" by simp
      then have k3: "3 \<le> k" by (simp add: inside_def)
      have "take 3 (drop (pos + 1) html) = ''!--''"
        using t3 k3 by (simp add: inside_def min_def)
      moreover have "drop pos html = CHR ''<'' # drop (pos + 1) html"
        using Cons_nth_drop_Suc [OF pos] lt by simp
      ultimately have "strncmp_eq (drop pos html) ''<!--'' 4"
        by (simp add: strncmp_eq_def)
      moreover from cc pos have "strncmp_eq (drop pos html) ''<!--'' 4
          \<longrightarrow> strstr (drop (pos + 4) html) ''-->'' \<noteq> None"
        by (simp add: comments_closed_def list_all_iff)
      ultimately obtain e where e: "strstr (drop (pos + 4) html) ''-->'' = Some e" by auto
      from strstr_Some_le [OF e] have "e + 3 \<le> length html - (pos + 4)" by simp
      moreover have "pos + 4 \<le> length html" using k3 k by simp
      ultimately have b: "pos + 4 + e + 3 \<le> length html" by linarith
      have "parse_iter html pos root stack = Next (pos + 4 + e + 3) root stack"
        using lt Some True e by (simp add: parse_iter_def inside_def Let_def)
      with b show ?thesis by simp
    next
      case nc: False
      obtain closing tag attrs_sub where sc: "scan_tag inside = (closing, tag, attrs_sub)"
        by (cases "scan_tag inside") auto
      show ?thesis
      proof (cases closing)
        case True
        have it: "parse_iter html pos root stack = Next (gt + 1) root (close_tag root tag stack)"
          using lt Some nc sc True by (simp add: parse_iter_def inside_def gt_def Let_def)
        have "length (close_tag root tag stack) \<le> length stack" by (rule close_tag_length)
        with it gt show ?thesis by (simp add: gt_def)
      next
        case False
        from open_tag_cases [of tag attrs_sub root stack] show ?thesis
        proof (elim disjE conjE exE)
          assume "open_tag tag attrs_sub root stack = None" and full: "STACK_SLOTS \<le> length stack"
          then have "parse_iter html pos root stack = Overrun"
            using lt Some nc sc False by (simp add: parse_iter_def inside_def gt_def Let_def)
          with full show ?thesis by simp
        next
          fix root' stack'
          assume ot: "open_tag tag attrs_sub root stack = Some (root', stack')"
            and len: "length stack' \<le> Suc (length stack)"
          have it: "parse_iter html pos root stack = Next (gt + 1) root' stack'"
            using lt Some nc sc False ot by (simp add: parse_iter_def inside_def gt_def Let_def)
          with len lt gt show ?thesis by (simp add: gt_def)
        qed
      qed
    qed
  qed
qed

text \<open>Away from comments without an end, the loop returns.\<close>

lemma parse_loop_returns:
  assumes cc: "comments_closed html"
  shows "\<exists>res. parse_loop html pos root stack = Some res"
proof (induction "length html - pos" arbitrary: pos root stack rule: less_induct)
  case less
  show ?case
  proof (cases "pos < length html")
    case False
    then show ?thesis by (simp add: parse_loop.simps)
  next
    case True
    from parse_iter_progress [OF cc True, of root stack]
    consider (stop) "parse_iter html pos root stack = Stop"
      | (over) "parse_iter html pos root stack = Overrun"
      | (step) pos' root' stack' where "parse_iter html pos root stack = Next pos' root' stack'"
          "pos < pos'" "pos' \<le> length html"
      by blast
    then show ?thesis
    proof cases
      case stop
      with True show ?thesis by (simp add: parse_loop.simps)
    next
      case over
      with True show ?thesis by (simp add: parse_loop.simps)
    next
      case step
      from step(2,3) True have "length html - pos' < length html - pos" by linarith
      from less.hyps [OF this] obtain res where "parse_loop html pos' root' stack' = Some res"
        by blast
      with True step(1) have "parse_loop html pos root stack = Some res"
        by (subst parse_loop.simps) simp
      then show ?thesis by blast
    qed
  qed
qed

text \<open>
  The stack never holds more entries than one plus the number of \<^verbatim>\<open><\<close> read so
  far, so an input with fewer than 4096 of them cannot overrun it.
\<close>

lemma parse_loop_total:
  assumes cc: "comments_closed html"
    and cnt: "count_list html (CHR ''<'') < STACK_SLOTS"
  shows "length stack \<le> Suc (count_list (take pos html) (CHR ''<''))
         \<Longrightarrow> \<exists>r. parse_loop html pos root stack = Some (Inr r)"
proof (induction "length html - pos" arbitrary: pos root stack rule: less_induct)
  case less
  show ?case
  proof (cases "pos < length html")
    case False
    then show ?thesis by (simp add: parse_loop.simps)
  next
    case True
    from parse_iter_progress [OF cc True, of root stack]
    consider (stop) "parse_iter html pos root stack = Stop"
      | (over) "parse_iter html pos root stack = Overrun" "STACK_SLOTS \<le> length stack"
      | (step) pos' root' stack' where "parse_iter html pos root stack = Next pos' root' stack'"
          "pos < pos'" "pos' \<le> length html"
          "length stack' \<le> length stack
           \<or> html ! pos = CHR ''<'' \<and> length stack' \<le> Suc (length stack)"
      by blast
    then show ?thesis
    proof cases
      case stop
      with True show ?thesis by (simp add: parse_loop.simps)
    next
      case over
      have "count_list (take pos html) (CHR ''<'') \<le> count_list html (CHR ''<'')"
        by (rule count_take_le)
      moreover from over(1) have "html ! pos = CHR ''<''"
        by (auto simp: parse_iter_def Let_def split: if_splits)
      then have "count_list (take (Suc pos) html) (CHR ''<'')
                 = Suc (count_list (take pos html) (CHR ''<''))"
        using count_take_Suc [OF True] by simp
      moreover have "count_list (take (Suc pos) html) (CHR ''<'') \<le> count_list html (CHR ''<'')"
        by (rule count_take_le)
      ultimately show ?thesis using less.prems cnt over(2) by linarith
    next
      case step
      have m: "count_list (take pos html) (CHR ''<'') \<le> count_list (take pos' html) (CHR ''<'')"
        by (rule count_take_mono) (use step(2) in simp)
      have inv': "length stack' \<le> Suc (count_list (take pos' html) (CHR ''<''))"
      proof (cases "length stack' \<le> length stack")
        case True
        with less.prems m show ?thesis by linarith
      next
        case False
        with step(4) have lt: "html ! pos = CHR ''<''" and l: "length stack' \<le> Suc (length stack)"
          by auto
        have "count_list (take (Suc pos) html) (CHR ''<'') \<le> count_list (take pos' html) (CHR ''<'')"
          by (rule count_take_mono) (use step(2) in simp)
        with count_take_Suc [OF \<open>pos < length html\<close> lt] l less.prems show ?thesis by linarith
      qed
      from step(2,3) True have "length html - pos' < length html - pos" by linarith
      from less.hyps [OF this inv'] obtain r where "parse_loop html pos' root' stack' = Some (Inr r)"
        by blast
      with True step(1) have "parse_loop html pos root stack = Some (Inr r)"
        by (subst parse_loop.simps) simp
      then show ?thesis by blast
    qed
  qed
qed

lemma parse_loop_unterminated_tag:
  assumes "pos < length html" and "html ! pos = CHR ''<''"
    and "strchr (drop (pos + 1) html) (CHR ''>'') = None"
  shows "parse_loop html pos root stack = Some (Inr root)"
  using assms by (subst parse_loop.simps) (simp add: parse_iter_def)

text \<open>
  An overrun is a push onto a full stack, and nothing else.
\<close>

lemma open_tag_None:
  "open_tag tag a root stack = None
   \<longleftrightarrow> snd (snd (open_kind tag)) \<and> STACK_SLOTS \<le> length stack"
  by (auto simp: open_tag_def Let_def split: prod.splits)

lemma parse_iter_Overrun:
  "parse_iter html pos root stack = Overrun
   \<Longrightarrow> html ! pos = CHR ''<'' \<and> STACK_SLOTS \<le> length stack"
  by (auto simp: parse_iter_def open_tag_def Let_def split: if_splits option.splits prod.splits)

text \<open>
  What fills the stack is the depth of the open elements, not the number of
  tags.  A bold element is closed by no closing tag, so 4096 times \<^verbatim>\<open><b>\<close> leave
  4096 entries on the stack when the last of them is opened, and that push
  writes past the end of the array.  4096 times \<^verbatim>\<open><br>\<close> push nothing, and the
  root is returned.
\<close>

lemma drop_concat_replicate:
  "k \<le> n \<Longrightarrow> length s = l
   \<Longrightarrow> drop (k * l) (concat (replicate n s)) = concat (replicate (n - k) s)"
proof (induction k arbitrary: n)
  case 0
  then show ?case by simp
next
  case (Suc k)
  then obtain m where n: "n = Suc m" by (cases n) auto
  with Suc.prems have "k \<le> m" by simp
  from Suc.IH [OF this Suc.prems(2)] n Suc.prems(2) show ?case by simp
qed

lemma parse_iter_at_tag:
  assumes pos: "pos < length html"
    and d: "drop pos html = CHR ''<'' # inside @ CHR ''>'' # rest"
    and i: "CHR ''>'' \<notin> set inside" "\<not> strncmp_eq inside ''!--'' 3"
      "scan_tag inside = (False, tag, attrs_sub)"
  shows "parse_iter html pos root stack
           = (case open_tag tag attrs_sub root stack of
                None \<Rightarrow> Overrun
              | Some (root', stack') \<Rightarrow> Next (pos + length inside + 2) root' stack')"
proof -
  have a: "html ! pos = CHR ''<''"
    using Cons_nth_drop_Suc [OF pos] d by simp
  have b: "drop (pos + 1) html = inside @ CHR ''>'' # rest"
    using Cons_nth_drop_Suc [OF pos] d by simp
  have c: "strchr (inside @ CHR ''>'' # rest) (CHR ''>'') = Some (length inside)"
    using i(1) by (induction inside) auto
  show ?thesis
    using a b c i(2,3) by (simp add: parse_iter_def Let_def split: option.splits)
qed

lemma nested_bold_overruns:
  assumes "STACK_SLOTS \<le> n"
  shows "Suc k \<le> STACK_SLOTS \<Longrightarrow> length stack = Suc k
         \<Longrightarrow> parse_loop (concat (replicate n ''<b>'')) (k * 3) root stack = Some (Inl StackOverrun)"
proof (induction "STACK_SLOTS - Suc k" arbitrary: k root stack rule: less_induct)
  case less
  let ?html = "concat (replicate n ''<b>'')"
  have len: "length ?html = n * 3" by (simp add: length_concat sum_list_replicate)
  from less.prems assms have kn: "k < n" by simp
  then have pos: "k * 3 < length ?html" by (simp add: len)
  from kn obtain m where m: "n - k = Suc m" by (cases "n - k") auto
  have "drop (k * 3) ?html = concat (replicate (n - k) ''<b>'')"
    by (rule drop_concat_replicate) (use kn in simp_all)
  with m have d: "drop (k * 3) ?html = CHR ''<'' # ''b'' @ CHR ''>'' # concat (replicate m ''<b>'')"
    by simp
  have sc: "scan_tag ''b'' = (False, ''b'', [])" "\<not> strncmp_eq ''b'' ''!--'' 3"
    by code_simp+
  have it: "parse_iter ?html (k * 3) root stack
           = (case open_tag ''b'' [] root stack of
                None \<Rightarrow> Overrun
              | Some (root', stack') \<Rightarrow> Next (k * 3 + length ''b'' + 2) root' stack')"
    by (rule parse_iter_at_tag [OF pos d]) (simp_all add: sc)
  have ok: "open_kind ''b'' = (NODE_BOLD, False, True)" by code_simp
  show ?case
  proof (cases "Suc k = STACK_SLOTS")
    case True
    with less.prems have "open_tag ''b'' [] root stack = None"
      by (simp add: open_tag_def ok Let_def)
    with it pos show ?thesis by (subst parse_loop.simps) simp
  next
    case False
    with less.prems have lt: "Suc (Suc k) \<le> STACK_SLOTS" by simp
    then obtain root' ptr where ot: "open_tag ''b'' [] root stack = Some (root', ptr # stack)"
      using less.prems by (simp add: open_tag_def ok Let_def)
    have "parse_loop ?html (k * 3) root stack
            = parse_loop ?html (k * 3 + length ''b'' + 2) root' (ptr # stack)"
      using it ot pos by (subst parse_loop.simps) simp
    also have "k * 3 + length ''b'' + 2 = Suc k * 3" by simp
    also have "parse_loop ?html (Suc k * 3) root' (ptr # stack) = Some (Inl StackOverrun)"
      by (rule less.hyps) (use lt less.prems in simp_all)
    finally show ?thesis .
  qed
qed

lemma deep_nesting_overruns_stack:
  "parse_html_tree (concat (replicate 4096 ''<b>'')) = Some (Inl StackOverrun)"
  unfolding parse_html_tree_def
  using nested_bold_overruns [of 4096 0 "[[]]" "node_create NODE_DIV"]
  by (simp add: STACK_SLOTS_def)

lemma void_tags_keep_stack:
  "k \<le> n \<Longrightarrow> \<exists>r. parse_loop (concat (replicate n ''<br>'')) (k * 4) root stack = Some (Inr r)"
proof (induction "n - k" arbitrary: k root rule: less_induct)
  case less
  let ?html = "concat (replicate n ''<br>'')"
  have len: "length ?html = n * 4" by (simp add: length_concat sum_list_replicate)
  show ?case
  proof (cases "k = n")
    case True
    then show ?thesis by (subst parse_loop.simps) (simp add: len)
  next
    case False
    with less.prems have kn: "k < n" by simp
    then have pos: "k * 4 < length ?html" by (simp add: len)
    from kn obtain m where m: "n - k = Suc m" by (cases "n - k") auto
    have "drop (k * 4) ?html = concat (replicate (n - k) ''<br>'')"
      by (rule drop_concat_replicate) (use kn in simp_all)
    with m have d: "drop (k * 4) ?html = CHR ''<'' # ''br'' @ CHR ''>'' # concat (replicate m ''<br>'')"
      by simp
    have sc: "scan_tag ''br'' = (False, ''br'', [])" "\<not> strncmp_eq ''br'' ''!--'' 3"
      by code_simp+
    have it: "parse_iter ?html (k * 4) root stack
           = (case open_tag ''br'' [] root stack of
                None \<Rightarrow> Overrun
              | Some (root', stack') \<Rightarrow> Next (k * 4 + length ''br'' + 2) root' stack')"
      by (rule parse_iter_at_tag [OF pos d]) (simp_all add: sc)
    have "open_kind ''br'' = (NODE_BR, False, False)" by code_simp
    then obtain root' where ot: "open_tag ''br'' [] root stack = Some (root', stack)"
      by (simp add: open_tag_def Let_def)
    have "parse_loop ?html (k * 4) root stack
            = parse_loop ?html (k * 4 + length ''br'' + 2) root' stack"
      using it ot pos by (subst parse_loop.simps) simp
    also have "k * 4 + length ''br'' + 2 = Suc k * 4" by simp
    finally have "parse_loop ?html (k * 4) root stack = parse_loop ?html (Suc k * 4) root' stack" .
    moreover have "\<exists>r. parse_loop ?html (Suc k * 4) root' stack = Some (Inr r)"
      by (rule less.hyps) (use kn in simp_all)
    ultimately show ?thesis by simp
  qed
qed

lemma many_void_tags_return_root:
  "count_list (concat (replicate 4096 ''<br>'')) (CHR ''<'') = 4096
   \<and> (\<exists>root. parse_html_tree (concat (replicate 4096 ''<br>'')) = Some (Inr root))"
proof -
  have c: "count_list (concat (replicate n ''<br>'')) (CHR ''<'') = n" for n
    by (induction n) simp_all
  from void_tags_keep_stack [of 0 4096 "node_create NODE_DIV" "[[]]"]
  obtain r where "parse_html_tree (concat (replicate 4096 ''<br>'')) = Some (Inr r)"
    by (auto simp: parse_html_tree_def)
  with c show ?thesis by simp
qed

text \<open>
  C6, as the code has it.  The builder has a single \<^verbatim>\<open>return root\<close> and no
  failure value.  On an input whose comment openers all have an end, and on
  which no element is opened while the 4096 slots of the stack are taken (the
  one write that the code does not check), it returns the root; fewer than
  4096 \<^verbatim>\<open><\<close> in the input are enough for the latter.  An unterminated tag
  delimiter (a \<^verbatim>\<open><\<close> with no \<^verbatim>\<open>>\<close> after it) is no failure either: the loop is
  left and the tree built so far is returned.
\<close>

theorem tree_builder_returns_root:
  "(comments_closed html \<and> parse_html_tree html \<noteq> Some (Inl StackOverrun)
        \<longrightarrow> (\<exists>root. parse_html_tree html = Some (Inr root)))
   \<and> (comments_closed html \<and> count_list html (CHR ''<'') < STACK_SLOTS
        \<longrightarrow> (\<exists>root. parse_html_tree html = Some (Inr root)))
   \<and> (pos < length html \<and> html ! pos = CHR ''<''
        \<and> strchr (drop (pos + 1) html) (CHR ''>'') = None
        \<longrightarrow> parse_loop html pos root stack = Some (Inr root))"
proof (intro conjI impI)
  assume a: "comments_closed html \<and> parse_html_tree html \<noteq> Some (Inl StackOverrun)"
  then obtain res where r: "parse_html_tree html = Some res"
    unfolding parse_html_tree_def using parse_loop_returns by blast
  show "\<exists>root. parse_html_tree html = Some (Inr root)"
  proof (cases res)
    case (Inl e)
    then have "res = Inl StackOverrun" by (cases e) simp
    with r a show ?thesis by simp
  next
    case (Inr root)
    with r show ?thesis by simp
  qed
next
  assume "comments_closed html \<and> count_list html (CHR ''<'') < STACK_SLOTS"
  then show "\<exists>root. parse_html_tree html = Some (Inr root)"
    unfolding parse_html_tree_def using parse_loop_total [of html "[[]]" 0] by simp
next
  assume "pos < length html \<and> html ! pos = CHR ''<''
        \<and> strchr (drop (pos + 1) html) (CHR ''>'') = None"
  then show "parse_loop html pos root stack = Some (Inr root)"
    using parse_loop_unterminated_tag by blast
qed

theorem tree_builder_returns_root_witness:
  "comments_closed ''<p>a<!-- c --><b''
   \<and> parse_html_tree ''<p>a<!-- c --><b'' \<noteq> Some (Inl StackOverrun)
   \<and> count_list ''<p>a<!-- c --><b'' (CHR ''<'') < STACK_SLOTS
   \<and> (\<exists>root. parse_html_tree ''<p>a<!-- c --><b'' = Some (Inr root))
   \<and> strchr (drop (0 + 1) ''<b'') (CHR ''>'') = None
   \<and> parse_loop ''<b'' 0 (node_create NODE_DIV) [[]] = Some (Inr (node_create NODE_DIV))"
proof -
  have a: "comments_closed ''<p>a<!-- c --><b''" by code_simp
  have n: "parse_html_tree ''<p>a<!-- c --><b'' \<noteq> Some (Inl StackOverrun)" by code_simp
  have b: "count_list ''<p>a<!-- c --><b'' (CHR ''<'') < STACK_SLOTS" by code_simp
  have c: "(0::nat) < length ''<b'' \<and> ''<b'' ! 0 = CHR ''<''
           \<and> strchr (drop (0 + 1) ''<b'') (CHR ''>'') = None" by simp
  from a n b c tree_builder_returns_root [of "''<p>a<!-- c --><b''" 0 "node_create NODE_DIV" "[[]]"]
    tree_builder_returns_root [of "''<b''" 0 "node_create NODE_DIV" "[[]]"]
  show ?thesis by blast
qed

text \<open>
  C6, as stated, has a syntax failure signalled on an unterminated tag
  delimiter, and a root node returned on every other input.  On \<^verbatim>\<open>a<b\<close> the \<^verbatim>\<open><\<close>
  has no \<^verbatim>\<open>>\<close> after it, and the builder returns a root node, the very tree it
  returns for \<^verbatim>\<open>a\<close>.  On \<^verbatim>\<open>a<!-->\<close> it returns nothing at all.
\<close>

theorem unterminated_tag_returns_root:
  "strchr ''b'' (CHR ''>'') = None
   \<and> parse_html_tree ''a<b'' = Some (Inr (Node NODE_DIV None [] [text_node ''a'']))
   \<and> parse_html_tree ''a'' = Some (Inr (Node NODE_DIV None [] [text_node ''a'']))
   \<and> parse_html_tree ''a<!-->'' = None"
proof -
  let ?R = "Node NODE_DIV None [] [text_node ''a'']"
  have a: "strchr ''b'' (CHR ''>'') = None
     \<and> parse_html_tree ''a<b'' = Some (Inr ?R) \<and> parse_html_tree ''a'' = Some (Inr ?R)"
    by code_simp
  have first: "parse_iter ''a<!-->'' 0 (node_create NODE_DIV) [[]] = Next 1 ?R [[]]"
    by code_simp
  have again: "parse_iter ''a<!-->'' 1 ?R [[]] = Next 1 ?R [[]]"
    by code_simp
  have "parse_loop ''a<!-->'' 0 (node_create NODE_DIV) [[]] = parse_loop ''a<!-->'' 1 ?R [[]]"
    by (subst parse_loop.simps) (simp add: first)
  also have "\<dots> = None"
    by (rule parse_loop_stuck) (simp, rule again)
  finally show ?thesis using a by (simp add: parse_html_tree_def)
qed

subsection \<open>Whitespace collapsing\<close>

lemma isspace_simps [simp]: "isspace SP" "isspace LF" "isspace TAB" "isspace CR"
  by (simp_all add: isspace_def code_of_def)

lemma collapse_loop_spec:
  "collapse_loop False s = spec_collapse (filter (\<lambda>c. c \<noteq> CR) s)
   \<and> collapse_loop True s = spec_collapse (dropWhile isspace (filter (\<lambda>c. c \<noteq> CR) s))"
proof (induction s)
  case Nil
  show ?case by simp
next
  case (Cons c cs)
  show ?case
  proof (cases "c = CR")
    case True
    with Cons show ?thesis by simp
  next
    case False
    show ?thesis
    proof (cases "isspace c")
      case True
      with False Cons show ?thesis by (simp add: Let_def)
    next
      case ns: False
      then have "c \<noteq> LF" "c \<noteq> TAB" by auto
      with False ns Cons show ?thesis by (simp add: Let_def)
    qed
  qed
qed

lemma collapse_loop_length: "length (collapse_loop b s) \<le> length s"
  by (induction s arbitrary: b) (auto simp: Let_def le_SucI)

lemma collapse_loop_idem:
  "collapse_loop False (collapse_loop b s) = collapse_loop b s
   \<and> collapse_loop True (collapse_loop True s) = collapse_loop True s"
proof (induction s arbitrary: b)
  case Nil
  show ?case by simp
next
  case (Cons c cs)
  show ?case
  proof (cases "c = CR")
    case True
    with Cons show ?thesis by simp
  next
    case False
    show ?thesis
    proof (cases "isspace c")
      case True
      with False Cons [of True] Cons [of b] show ?thesis by (cases b) (simp_all add: Let_def)
    next
      case ns: False
      then have "c \<noteq> LF" "c \<noteq> TAB" by auto
      with False ns Cons [of False] show ?thesis by (simp add: Let_def)
    qed
  qed
qed

lemma trim_trailing_Cons:
  "trim_trailing (c # cs) = (if trim_trailing cs = [] \<and> c = SP then [] else c # trim_trailing cs)"
  by (auto simp: trim_trailing_def dropWhile_append)

lemma trim_trailing_idem: "trim_trailing (trim_trailing s) = trim_trailing s"
  by (simp add: trim_trailing_def)

lemma collapse_loop_trim:
  "collapse_loop b s = s \<Longrightarrow> collapse_loop b (trim_trailing s) = trim_trailing s"
proof (induction s arbitrary: b)
  case Nil
  show ?case by (simp add: trim_trailing_def)
next
  case (Cons c cs)
  have len: "length (collapse_loop b' cs) \<le> length cs" for b' by (rule collapse_loop_length)
  show ?case
  proof (cases "c = CR")
    case True
    with Cons.prems len [of b] show ?thesis by (auto dest: arg_cong [where f = length])
  next
    case False
    show ?thesis
    proof (cases "isspace c")
      case True
      show ?thesis
      proof (cases b)
        case True
        with \<open>isspace c\<close> False Cons.prems len [of True] show ?thesis
          by (auto simp: Let_def dest: arg_cong [where f = length] split: if_splits)
      next
        case b: False
        with \<open>isspace c\<close> False Cons.prems have c: "c = SP" and r: "collapse_loop True cs = cs"
          by (auto simp: Let_def split: if_splits)
        from Cons.IH [OF r] c b show ?thesis
          by (simp add: trim_trailing_Cons Let_def)
      qed
    next
      case ns: False
      then have n: "c \<noteq> LF" "c \<noteq> TAB" "c \<noteq> SP" by auto
      with False ns Cons.prems have r: "collapse_loop False cs = cs" by (simp add: Let_def)
      from Cons.IH [OF r] n ns False show ?thesis
        by (simp add: trim_trailing_Cons Let_def)
    qed
  qed
qed

text \<open>
  The builder stores a text run collapsed, except under a \<^verbatim>\<open>NODE_PRE\<close> or
  \<^verbatim>\<open>NODE_CODE\<close> parent, where it stores the run as it is.
\<close>

lemma add_text_collapses:
  assumes "chunk \<noteq> []"
  shows "ntype (node_at root (top stack)) \<noteq> NODE_PRE
         \<Longrightarrow> ntype (node_at root (top stack)) \<noteq> NODE_CODE
         \<Longrightarrow> add_text chunk root stack
             = (if collapse_ws chunk = [] then root
                else append_at (top stack) (text_node (collapse_ws chunk)) root)"
    and "ntype (node_at root (top stack)) = NODE_PRE \<or> ntype (node_at root (top stack)) = NODE_CODE
         \<Longrightarrow> add_text chunk root stack = append_at (top stack) (text_node chunk) root"
  using assms by (auto simp: add_text_def Let_def)

text \<open>
  C8, as the code has it.  The collapsing function deletes every carriage
  return, replaces each maximal whitespace run of what remains by exactly one
  space, and then removes the space at the end, if there is one.  It is
  idempotent.
\<close>

theorem collapse_ws_characterised:
  "collapse_ws s = trim_trailing (spec_collapse (filter (\<lambda>c. c \<noteq> CR) s))
   \<and> collapse_ws (collapse_ws s) = collapse_ws s"
proof
  show "collapse_ws s = trim_trailing (spec_collapse (filter (\<lambda>c. c \<noteq> CR) s))"
    by (simp add: collapse_ws_def collapse_loop_spec)
  have "collapse_loop False (collapse_loop False s) = collapse_loop False s"
    using collapse_loop_idem [of False s] by simp
  then have "collapse_loop False (trim_trailing (collapse_loop False s))
             = trim_trailing (collapse_loop False s)"
    by (rule collapse_loop_trim)
  then show "collapse_ws (collapse_ws s) = collapse_ws s"
    by (simp add: collapse_ws_def trim_trailing_idem)
qed

text \<open>
  C8, as stated, fails on a run at the end of the text: "every run becomes
  exactly one space" would keep a space after \<^verbatim>\<open>a\<close>.
\<close>

theorem trailing_whitespace_run_is_removed:
  "collapse_ws ''a '' \<noteq> spec_collapse ''a ''"
  by code_simp

section \<open>Rendering\<close>

subsection \<open>Word wrap\<close>

lemma wrap_space_ok:
  assumes "\<forall>op \<in> set (wops s). within indent W op" and "indent \<le> curx s"
  shows "(\<forall>op \<in> set (wops (wrap_space W indent s)). within indent W op)
         \<and> indent \<le> curx (wrap_space W indent s)
         \<and> wword (wrap_space W indent s) = wword s"
  using assms by (auto simp: wrap_space_def within_def extent_def)

lemma wrap_delim_ok:
  assumes ops: "\<forall>op \<in> set (wops s). within indent W op" and x: "indent \<le> curx s"
    and w: "wword s \<noteq> [] \<longrightarrow> indent + int (length (wword s)) \<le> W"
  shows "(\<forall>op \<in> set (wops (wrap_delim W indent st sp s)). within indent W op)
         \<and> indent \<le> curx (wrap_delim W indent st sp s)
         \<and> wword (wrap_delim W indent st sp s) = []"
proof (cases "wword s = []")
  case True
  with wrap_space_ok [OF ops x] x ops show ?thesis by (simp add: wrap_delim_def)
next
  case False
  define wi where "wi = int (length (wword s))"
  define s1 where "s1 = (if curx s + wi \<ge> W then s\<lparr>wy := wy s + 1, curx := indent\<rparr> else s)"
  define s2 where "s2 = s1\<lparr>wops := wops s1 @ [Addnstr (wy s1) (curx s1) (wword s) st],
                     curx := curx s1 + wi\<rparr>"
  have wi: "0 < wi" "indent + wi \<le> W" using False w by (simp_all add: wi_def)
  have x1: "indent \<le> curx s1" "curx s1 + wi \<le> W" "wops s1 = wops s"
    using x wi by (auto simp: s1_def)
  have ops2: "\<forall>op \<in> set (wops s2). within indent W op"
    using ops x1 by (auto simp: s2_def within_def extent_def wi_def)
  have x2: "indent \<le> curx s2" using x1 wi by (simp add: s2_def)
  have eq: "wrap_delim W indent st sp s = (if sp then wrap_space W indent s2 else s2)\<lparr>wword := []\<rparr>"
    using False by (simp add: wrap_delim_def Let_def s2_def s1_def wi_def)
  show ?thesis
  proof (cases sp)
    case True
    with eq wrap_space_ok [OF ops2 x2] show ?thesis by simp
  next
    case False
    with eq ops2 x2 show ?thesis by simp
  qed
qed

lemma wrap_char_word:
  assumes "wword s = take 1023 w"
  shows "wword (wrap_char c s) = take 1023 (w @ [c])
         \<and> wops (wrap_char c s) = wops s \<and> curx (wrap_char c s) = curx s"
proof (cases "length (wword s) + 1 < 1024")
  case True
  with assms have "length w < 1023" by (simp add: min_def split: if_splits)
  with True assms show ?thesis by (simp add: wrap_char_def)
next
  case False
  with assms have "1023 \<le> length w" by (simp add: min_def split: if_splits)
  with False assms show ?thesis by (simp add: wrap_char_def)
qed

lemma wrap_loop_ok:
  assumes "\<forall>op \<in> set (wops s). within indent W op" and "indent \<le> curx s"
    and "wword s = take 1023 w"
    and "\<forall>v \<in> set (split_sp w ts). v \<noteq> [] \<longrightarrow> indent + int (length v) \<le> W"
  shows "\<forall>op \<in> set (wops (wrap_loop W indent st ts s)). within indent W op"
  using assms
proof (induction ts arbitrary: s w)
  case Nil
  from Nil.prems(4) have "w \<noteq> [] \<longrightarrow> indent + int (length w) \<le> W" by simp
  moreover have "length (wword s) \<le> length w" using Nil.prems(3) by simp
  moreover have "wword s \<noteq> [] \<longrightarrow> w \<noteq> []" using Nil.prems(3) by auto
  ultimately have "wword s \<noteq> [] \<longrightarrow> indent + int (length (wword s)) \<le> W" by auto
  from wrap_delim_ok [OF Nil.prems(1,2) this] show ?case by simp
next
  case (Cons c cs)
  show ?case
  proof (cases "c = SP")
    case True
    with Cons.prems(4) have "w \<noteq> [] \<longrightarrow> indent + int (length w) \<le> W"
      and rest: "\<forall>v \<in> set (split_sp [] cs). v \<noteq> [] \<longrightarrow> indent + int (length v) \<le> W" by simp_all
    moreover have "length (wword s) \<le> length w" using Cons.prems(3) by simp
    moreover have "wword s \<noteq> [] \<longrightarrow> w \<noteq> []" using Cons.prems(3) by auto
    ultimately have "wword s \<noteq> [] \<longrightarrow> indent + int (length (wword s)) \<le> W" by auto
    from wrap_delim_ok [OF Cons.prems(1,2) this, of st True]
    have a: "\<forall>op \<in> set (wops (wrap_delim W indent st True s)). within indent W op"
      and b: "indent \<le> curx (wrap_delim W indent st True s)"
      and c: "wword (wrap_delim W indent st True s) = take 1023 []" by simp_all
    from Cons.IH [OF a b c rest] True show ?thesis by simp
  next
    case False
    from wrap_char_word [OF Cons.prems(3), of c]
    have a: "\<forall>op \<in> set (wops (wrap_char c s)). within indent W op"
      and b: "indent \<le> curx (wrap_char c s)"
      and c: "wword (wrap_char c s) = take 1023 (w @ [c])"
      using Cons.prems(1,2) by simp_all
    from Cons.prems(4) False
    have rest: "\<forall>v \<in> set (split_sp (w @ [c]) cs). v \<noteq> [] \<longrightarrow> indent + int (length v) \<le> W" by simp
    from Cons.IH [OF a b c rest] False show ?thesis by simp
  qed
qed

lemma wrap_delim_wraps_word:
  assumes "wword s \<noteq> []" and "curx s + int (length (wword s)) \<ge> W"
  shows "\<exists>more. wops (wrap_delim W indent st sp s)
           = wops s @ Addnstr (wy s + 1) indent (wword s) st # more"
  using assms by (auto simp: wrap_delim_def Let_def wrap_space_def)

lemma wrap_space_wraps:
  assumes "curx s + 1 \<ge> W"
  shows "wrap_space W indent s = s\<lparr>wy := wy s + 1, curx := indent\<rparr>"
  using assms by (simp add: wrap_space_def)

text \<open>Words are written whole, one write each, whatever the width.\<close>

lemma word_writes_append: "word_writes (xs @ ys) = word_writes xs @ word_writes ys"
  by (induction xs) (simp_all split: pad_op.splits)

lemma wrap_space_words:
  "word_writes (wops (wrap_space W indent s)) = word_writes (wops s)"
  by (simp add: wrap_space_def word_writes_append)

lemma wrap_delim_words:
  "word_writes (wops (wrap_delim W indent st sp s))
     = word_writes (wops s) @ (if wword s = [] then [] else [wword s])
   \<and> wword (wrap_delim W indent st sp s) = []"
  by (simp add: wrap_delim_def Let_def wrap_space_def word_writes_append)

lemma wrap_loop_words:
  assumes "wword s = take 1023 w"
  shows "word_writes (wops (wrap_loop W indent st ts s))
           = word_writes (wops s) @ map (take 1023) (filter (\<lambda>v. v \<noteq> []) (split_sp w ts))"
  using assms
proof (induction ts arbitrary: s w)
  case Nil
  then have "wword s = [] \<longleftrightarrow> w = []" by auto
  with Nil wrap_delim_words [of W indent st False s] show ?case by simp
next
  case (Cons c cs)
  show ?case
  proof (cases "c = SP")
    case True
    have e: "wword s = [] \<longleftrightarrow> w = []" using Cons.prems by auto
    have "wword (wrap_delim W indent st True s) = take 1023 []"
      using wrap_delim_words [of W indent st True s] by simp
    from Cons.IH [OF this] True e Cons.prems wrap_delim_words [of W indent st True s]
    show ?thesis by simp
  next
    case False
    from wrap_char_word [OF Cons.prems, of c]
    have "wword (wrap_char c s) = take 1023 (w @ [c])" and "wops (wrap_char c s) = wops s"
      by simp_all
    from Cons.IH [OF this(1)] this(2) False show ?thesis by simp
  qed
qed

text \<open>
  The word buffer holds 1023 bytes: of a word of 1030 bytes, the first 1023 are
  written and the other seven are dropped.
\<close>

lemma split_sp_replicate:
  "c \<noteq> SP \<Longrightarrow> split_sp w (replicate n c) = [w @ replicate n c]"
  by (induction n arbitrary: w) (simp_all add: replicate_app_Cons_same)

lemma word_longer_than_buffer_is_cut:
  "word_writes (fst (render_wrapped_text W y indent (replicate 1030 (CHR ''a'')) is_dim is_bold
                       color_pair))
     = [replicate 1023 (CHR ''a'')]"
proof -
  let ?s0 = "\<lparr>wy = y, curx = indent, wword = [], wops = []\<rparr>"
  have "word_writes (wops (wrap_loop W indent (is_dim, is_bold, color_pair)
                             (replicate 1030 (CHR ''a'')) ?s0))
          = word_writes (wops ?s0)
            @ map (take 1023) (filter (\<lambda>v. v \<noteq> []) (split_sp [] (replicate 1030 (CHR ''a''))))"
    by (rule wrap_loop_words) simp
  then show ?thesis
    by (simp add: render_wrapped_text_def Let_def split_sp_replicate)
qed

text \<open>A write that does not end by the width starts at the indent.\<close>

lemma wrap_space_placed:
  assumes "\<forall>op \<in> set (wops s). indent \<le> op_col op \<and> (within indent W op \<or> op_col op = indent)"
    and "indent \<le> curx s"
  shows "(\<forall>op \<in> set (wops (wrap_space W indent s)).
            indent \<le> op_col op \<and> (within indent W op \<or> op_col op = indent))
         \<and> indent \<le> curx (wrap_space W indent s)"
  using assms by (auto simp: wrap_space_def within_def extent_def)

lemma wrap_delim_placed:
  assumes ops: "\<forall>op \<in> set (wops s). indent \<le> op_col op \<and> (within indent W op \<or> op_col op = indent)"
    and x: "indent \<le> curx s"
  shows "(\<forall>op \<in> set (wops (wrap_delim W indent st sp s)).
            indent \<le> op_col op \<and> (within indent W op \<or> op_col op = indent))
         \<and> indent \<le> curx (wrap_delim W indent st sp s)"
proof (cases "wword s = []")
  case True
  with wrap_space_placed [OF ops x] x ops show ?thesis by (simp add: wrap_delim_def)
next
  case False
  define wi where "wi = int (length (wword s))"
  define s1 where "s1 = (if curx s + wi \<ge> W then s\<lparr>wy := wy s + 1, curx := indent\<rparr> else s)"
  define s2 where "s2 = s1\<lparr>wops := wops s1 @ [Addnstr (wy s1) (curx s1) (wword s) st],
                     curx := curx s1 + wi\<rparr>"
  have wi: "0 \<le> wi" by (simp add: wi_def)
  have x1: "indent \<le> curx s1" "curx s1 + wi \<le> W \<or> curx s1 = indent" "wops s1 = wops s"
    using x by (auto simp: s1_def)
  have ops2: "\<forall>op \<in> set (wops s2). indent \<le> op_col op \<and> (within indent W op \<or> op_col op = indent)"
    using ops x1 by (auto simp: s2_def within_def extent_def wi_def)
  have x2: "indent \<le> curx s2" using x1 wi by (simp add: s2_def)
  have eq: "wrap_delim W indent st sp s = (if sp then wrap_space W indent s2 else s2)\<lparr>wword := []\<rparr>"
    using False by (simp add: wrap_delim_def Let_def s2_def s1_def wi_def)
  show ?thesis
  proof (cases sp)
    case True
    with eq wrap_space_placed [OF ops2 x2] show ?thesis by simp
  next
    case False
    with eq ops2 x2 show ?thesis by simp
  qed
qed

lemma wrap_loop_placed:
  assumes "\<forall>op \<in> set (wops s). indent \<le> op_col op \<and> (within indent W op \<or> op_col op = indent)"
    and "indent \<le> curx s"
  shows "\<forall>op \<in> set (wops (wrap_loop W indent st ts s)).
           indent \<le> op_col op \<and> (within indent W op \<or> op_col op = indent)"
  using assms
proof (induction ts arbitrary: s)
  case Nil
  from wrap_delim_placed [OF Nil.prems] show ?case by simp
next
  case (Cons c cs)
  show ?case
  proof (cases "c = SP")
    case True
    from wrap_delim_placed [OF Cons.prems, of st True]
    have a: "\<forall>op \<in> set (wops (wrap_delim W indent st True s)).
               indent \<le> op_col op \<and> (within indent W op \<or> op_col op = indent)"
      and b: "indent \<le> curx (wrap_delim W indent st True s)" by simp_all
    from Cons.IH [OF a b] True show ?thesis by simp
  next
    case False
    have a: "\<forall>op \<in> set (wops (wrap_char c s)).
               indent \<le> op_col op \<and> (within indent W op \<or> op_col op = indent)"
      and b: "indent \<le> curx (wrap_char c s)"
      using Cons.prems by (simp_all add: wrap_char_def)
    from Cons.IH [OF a b] False show ?thesis by simp
  qed
qed

text \<open>
  C2, as the code has it.  When no word of the text is longer than the room
  between the indent and the width, every write of the word-wrap routine lies
  between the indent and the width \<open>W\<close>, so no row is wider than \<open>W\<close> columns.  A
  completed word with \<open>col + length \<ge> W\<close> is written on the next row at the
  indent, and a space with \<open>col + 1 \<ge> W\<close> is not written: the next row begins
  at the indent instead.  Words are never split, whatever the width: the word
  writes are the words of the text in their order, each in one write that holds
  its first 1023 bytes (the room of the word buffer), and a write that does not
  end by column \<open>W\<close> starts at the indent.  A write longer than the room
  between the indent and \<open>W\<close> therefore starts at the indent and runs past
  column \<open>W\<close>.
\<close>

theorem wrapped_text_within_width:
  "((\<forall>v \<in> set (words_of txt). indent + int (length v) \<le> W)
      \<longrightarrow> (\<forall>op \<in> set (fst (render_wrapped_text W y indent txt is_dim is_bold color_pair)).
             indent \<le> op_col op \<and> op_col op + extent op \<le> W))
   \<and> (wword s \<noteq> [] \<and> curx s + int (length (wword s)) \<ge> W
      \<longrightarrow> (\<exists>more. wops (wrap_delim W indent st sp s)
             = wops s @ Addnstr (wy s + 1) indent (wword s) st # more))
   \<and> (curx s + 1 \<ge> W \<longrightarrow> wrap_space W indent s = s\<lparr>wy := wy s + 1, curx := indent\<rparr>)
   \<and> word_writes (fst (render_wrapped_text W y indent txt is_dim is_bold color_pair))
       = map (take 1023) (words_of txt)
   \<and> (\<forall>op \<in> set (fst (render_wrapped_text W y indent txt is_dim is_bold color_pair)).
         indent \<le> op_col op \<and> (op_col op + extent op \<le> W \<or> op_col op = indent))
   \<and> (\<forall>op \<in> set (fst (render_wrapped_text W y indent txt is_dim is_bold color_pair)).
         W - indent < extent op \<longrightarrow> op_col op = indent \<and> W < op_col op + extent op)"
proof (intro conjI impI)
  assume h: "\<forall>v \<in> set (words_of txt). indent + int (length v) \<le> W"
  let ?s0 = "\<lparr>wy = y, curx = indent, wword = [], wops = []\<rparr>"
  have "\<forall>op \<in> set (wops (wrap_loop W indent (is_dim, is_bold, color_pair) txt ?s0)).
          within indent W op"
  proof (rule wrap_loop_ok [where w = "[]"])
    show "\<forall>v \<in> set (split_sp [] txt). v \<noteq> [] \<longrightarrow> indent + int (length v) \<le> W"
      using h by (simp add: words_of_def)
  qed simp_all
  then show "\<forall>op \<in> set (fst (render_wrapped_text W y indent txt is_dim is_bold color_pair)).
             indent \<le> op_col op \<and> op_col op + extent op \<le> W"
    by (simp add: render_wrapped_text_def Let_def within_def)
next
  assume "wword s \<noteq> [] \<and> curx s + int (length (wword s)) \<ge> W"
  then show "\<exists>more. wops (wrap_delim W indent st sp s)
             = wops s @ Addnstr (wy s + 1) indent (wword s) st # more"
    using wrap_delim_wraps_word by blast
next
  assume "curx s + 1 \<ge> W"
  then show "wrap_space W indent s = s\<lparr>wy := wy s + 1, curx := indent\<rparr>"
    by (rule wrap_space_wraps)
next
  let ?s0 = "\<lparr>wy = y, curx = indent, wword = [], wops = []\<rparr>"
  have "word_writes (wops (wrap_loop W indent (is_dim, is_bold, color_pair) txt ?s0))
          = word_writes (wops ?s0) @ map (take 1023) (filter (\<lambda>v. v \<noteq> []) (split_sp [] txt))"
    by (rule wrap_loop_words) simp
  then show "word_writes (fst (render_wrapped_text W y indent txt is_dim is_bold color_pair))
       = map (take 1023) (words_of txt)"
    by (simp add: render_wrapped_text_def Let_def words_of_def)
next
  let ?s0 = "\<lparr>wy = y, curx = indent, wword = [], wops = []\<rparr>"
  have "\<forall>op \<in> set (wops (wrap_loop W indent (is_dim, is_bold, color_pair) txt ?s0)).
          indent \<le> op_col op \<and> (within indent W op \<or> op_col op = indent)"
    by (rule wrap_loop_placed) simp_all
  then show "\<forall>op \<in> set (fst (render_wrapped_text W y indent txt is_dim is_bold color_pair)).
         indent \<le> op_col op \<and> (op_col op + extent op \<le> W \<or> op_col op = indent)"
    by (auto simp: render_wrapped_text_def Let_def within_def)
next
  let ?s0 = "\<lparr>wy = y, curx = indent, wword = [], wops = []\<rparr>"
  have "\<forall>op \<in> set (wops (wrap_loop W indent (is_dim, is_bold, color_pair) txt ?s0)).
          indent \<le> op_col op \<and> (within indent W op \<or> op_col op = indent)"
    by (rule wrap_loop_placed) simp_all
  then show "\<forall>op \<in> set (fst (render_wrapped_text W y indent txt is_dim is_bold color_pair)).
         W - indent < extent op \<longrightarrow> op_col op = indent \<and> W < op_col op + extent op"
    by (fastforce simp: render_wrapped_text_def Let_def within_def)
qed

theorem wrapped_text_within_width_witness:
  "list_all (\<lambda>v. 0 + int (length v) \<le> 10) (words_of ''hello world foo bar'')
   \<and> list_all (\<lambda>op. 0 \<le> op_col op \<and> op_col op + extent op \<le> 10)
        (fst (render_wrapped_text 10 0 0 ''hello world foo bar'' True False 0))
   \<and> (\<exists>more. wops (wrap_delim 10 0 (True, False, 0) True
                      \<lparr>wy = 0, curx = 6, wword = ''world'', wops = []\<rparr>)
          = [] @ Addnstr (0 + 1) 0 ''world'' (True, False, 0) # more)
   \<and> wrap_space 10 0 \<lparr>wy = 1, curx = 9, wword = [], wops = []\<rparr>
        = \<lparr>wy = 1 + 1, curx = 0, wword = [], wops = []\<rparr>
   \<and> word_writes (fst (render_wrapped_text 10 0 0 ''hello world foo bar'' True False 0))
        = [''hello'', ''world'', ''foo'', ''bar'']
   \<and> word_writes (fst (render_wrapped_text 5 0 2 ''ab abcdefgh'' True False 0))
        = [''ab'', ''abcdefgh'']
   \<and> list_all (\<lambda>op. 2 \<le> op_col op \<and> (op_col op + extent op \<le> 5 \<or> op_col op = 2))
        (fst (render_wrapped_text 5 0 2 ''ab abcdefgh'' True False 0))
   \<and> Addnstr 2 2 ''abcdefgh'' (True, False, 0)
        \<in> set (fst (render_wrapped_text 5 0 2 ''ab abcdefgh'' True False 0))
   \<and> 5 - 2 < extent (Addnstr 2 2 ''abcdefgh'' (True, False, 0))
   \<and> op_col (Addnstr 2 2 ''abcdefgh'' (True, False, 0)) = 2
   \<and> 5 < op_col (Addnstr 2 2 ''abcdefgh'' (True, False, 0))
           + extent (Addnstr 2 2 ''abcdefgh'' (True, False, 0))"
proof -
  have w: "words_of ''hello world foo bar'' = [''hello'', ''world'', ''foo'', ''bar'']"
    by code_simp
  have w2: "words_of ''ab abcdefgh'' = [''ab'', ''abcdefgh'']"
    by code_simp
  from w have h: "\<forall>v \<in> set (words_of ''hello world foo bar''). 0 + int (length v) \<le> 10"
    by simp
  let ?s = "\<lparr>wy = 0, curx = 6, wword = ''world'', wops = []\<rparr>"
  let ?r = "\<lparr>wy = 1, curx = 9, wword = [], wops = []\<rparr>"
  have h2: "wword ?s \<noteq> [] \<and> curx ?s + int (length (wword ?s)) \<ge> 10" by simp
  have h3: "curx ?r + 1 \<ge> 10" by simp
  from wrapped_text_within_width
    [of "''hello world foo bar''" 0 10 0 True False 0 ?s "(True, False, 0)" True]
  have a: "\<forall>op \<in> set (fst (render_wrapped_text 10 0 0 ''hello world foo bar'' True False 0)).
             0 \<le> op_col op \<and> op_col op + extent op \<le> 10"
    and b: "\<exists>more. wops (wrap_delim 10 0 (True, False, 0) True ?s)
             = wops ?s @ Addnstr (wy ?s + 1) 0 (wword ?s) (True, False, 0) # more"
    and d: "word_writes (fst (render_wrapped_text 10 0 0 ''hello world foo bar'' True False 0))
             = map (take 1023) (words_of ''hello world foo bar'')"
    using h h2 by blast+
  from wrapped_text_within_width [where s = ?r and W = 10 and indent = 0]
  have c: "wrap_space 10 0 ?r = ?r\<lparr>wy := wy ?r + 1, curx := 0\<rparr>"
    using h3 by blast
  from wrapped_text_within_width [of "''ab abcdefgh''" 2 5 0 True False 0]
  have e: "word_writes (fst (render_wrapped_text 5 0 2 ''ab abcdefgh'' True False 0))
             = map (take 1023) (words_of ''ab abcdefgh'')"
    and f: "\<forall>op \<in> set (fst (render_wrapped_text 5 0 2 ''ab abcdefgh'' True False 0)).
             2 \<le> op_col op \<and> (op_col op + extent op \<le> 5 \<or> op_col op = 2)"
    and g: "\<forall>op \<in> set (fst (render_wrapped_text 5 0 2 ''ab abcdefgh'' True False 0)).
             5 - 2 < extent op \<longrightarrow> op_col op = 2 \<and> 5 < op_col op + extent op"
    by blast+
  let ?op = "Addnstr 2 2 ''abcdefgh'' (True, False, 0)"
  have m: "?op \<in> set (fst (render_wrapped_text 5 0 2 ''ab abcdefgh'' True False 0))"
    by code_simp
  have x: "5 - 2 < extent ?op" by (simp add: extent_def)
  from g m x have k: "op_col ?op = 2 \<and> 5 < op_col ?op + extent ?op" by blast
  from h a b c d e f w w2 m x k show ?thesis by (simp add: list_all_iff)
qed

text \<open>
  C2, as stated, fails for a word longer than the row: words are never split,
  so at width 5 the word \<^verbatim>\<open>abcdefgh\<close> is written whole, from column 0 of a new
  row, eight columns wide.  (The pad is only as wide as the terminal; where the
  excess of such a write ends up is decided by ncurses, not by the routine,
  which goes on to the next row as if the word had fitted.)
\<close>

theorem long_word_exceeds_width:
  "render_wrapped_text 5 0 0 ''abcdefgh'' True False 0
     = ([Addnstr 1 0 ''abcdefgh'' (True, False, 0)], 2)
   \<and> \<not> (op_col (Addnstr 1 0 ''abcdefgh'' (True, False, 0))
         + extent (Addnstr 1 0 ''abcdefgh'' (True, False, 0)) \<le> 5)"
  by code_simp

subsection \<open>Tables\<close>

lemma op_text_simps [simp]:
  "op_text (Addch y x c) = [c]" "op_text (Addnstr y x s st) = s" "op_text (Printw y x s) = s"
  by (simp_all add: op_text_def)

lemma is_bar_simps [simp]:
  "is_bar (Addch y x c) = (c = CHR ''|'')" "is_bar (Addnstr y x s st) = False"
  "is_bar (Printw y x s) = False"
  by (simp_all add: is_bar_def)

lemma contiguous_append:
  "contiguous y x (xs @ ys)
   \<longleftrightarrow> contiguous y x xs \<and> contiguous y (x + int (length (concat (map op_text xs)))) ys"
  by (induction xs arbitrary: x) (auto simp: add.assoc)

lemma contiguous_chars:
  "contiguous y x (map (\<lambda>k. Addch y (x + int k) c) [0..<n])"
proof (induction n)
  case (Suc n)
  have "length (concat (map op_text (map (\<lambda>k. Addch y (x + int k) c) [0..<n]))) = n"
    by (induction n) simp_all
  with Suc show ?case by (simp add: contiguous_append)
qed simp

lemma text_chars:
  "concat (map op_text (map (\<lambda>k. Addch y (x + int k) c) [0..<n])) = replicate n c"
  by (induction n) (simp_all add: replicate_append_same)

lemma bars_chars:
  "c \<noteq> CHR ''|'' \<Longrightarrow> filter is_bar (map (\<lambda>k. Addch y (x + int k) c) [0..<n]) = []"
  by (induction n) simp_all

lemma pad_right_length: "length s \<le> w \<Longrightarrow> length (pad_right w s) = w"
  by (simp add: pad_right_def)

lemma cell_cols_layout:
  assumes "\<forall>(w, cell) \<in> set wcs. case cell of Some s \<Rightarrow> length s \<le> w | None \<Rightarrow> True"
  shows "contiguous y x (cell_cols y x wcs)
         \<and> concat (map op_text (cell_cols y x wcs)) = concat (map cell_field wcs)
         \<and> length (filter is_bar (cell_cols y x wcs)) = length wcs"
  using assms
proof (induction wcs arbitrary: x)
  case Nil
  show ?case by simp
next
  case (Cons wc wcs)
  obtain w cell where wc: "wc = (w, cell)" by (cases wc)
  from Cons.prems have rest: "\<forall>(w, cell) \<in> set wcs. case cell of Some s \<Rightarrow> length s \<le> w | None \<Rightarrow> True"
    by simp
  note IH = Cons.IH [OF rest, of "x + 1 + int w + 2"]
  show ?case
  proof (cases cell)
    case None
    have c: "contiguous y (x + 1) (map (\<lambda>k. Addch y (x + 1 + int k) SP) [0..<w])"
      by (rule contiguous_chars)
    have t: "concat (map op_text (map (\<lambda>k. Addch y (x + 1 + int k) SP) [0..<w])) = replicate w SP"
      by (rule text_chars)
    have b: "filter is_bar (map (\<lambda>k. Addch y (x + 1 + int k) SP) [0..<w]) = []"
      by (rule bars_chars) simp
    from IH c t b show ?thesis
      by (simp add: wc None contiguous_append cell_field_def pad_right_def add.assoc)
  next
    case (Some s)
    with Cons.prems wc have "length s \<le> w" by simp
    then have "length (pad_right w s) = w" by (rule pad_right_length)
    with IH show ?thesis
      by (simp add: wc Some cell_field_def add.assoc)
  qed
qed

lemma border_cols_layout:
  "contiguous y x (border_cols y x colw)
   \<and> concat (map op_text (border_cols y x colw))
       = concat (map (\<lambda>w. replicate (w + 2) (CHR ''-'') @ [CHR ''+'']) colw)"
proof (induction colw arbitrary: x)
  case Nil
  show ?case by simp
next
  case (Cons w ws)
  have c: "contiguous y x (map (\<lambda>k. Addch y (x + int k) (CHR ''-'')) [0..<w + 2])"
    by (rule contiguous_chars)
  have t: "concat (map op_text (map (\<lambda>k. Addch y (x + int k) (CHR ''-'')) [0..<w + 2]))
           = replicate (w + 2) (CHR ''-'')"
    by (rule text_chars)
  from Cons [of "x + int (w + 2) + 1"] c t show ?case
    by (simp add: contiguous_append add.assoc del: upt_Suc replicate_Suc)
qed


lemma col_width_fold:
  "foldl (\<lambda>mw row. case row ! c of Some s \<Rightarrow> (if length s > mw then length s else mw)
                                   | None \<Rightarrow> mw) m grid
   = fold max (map length (List.map_filter (\<lambda>row. row ! c) grid)) m"
proof (induction grid arbitrary: m)
  case Nil
  show ?case by (simp add: List.map_filter_simps)
next
  case (Cons row grid)
  show ?case
  proof (cases "row ! c")
    case None
    with Cons show ?thesis by (simp add: List.map_filter_simps)
  next
    case (Some s)
    have "(if length s > m then length s else m) = max (length s) m" by (simp add: max_def)
    with Some Cons show ?thesis by (simp add: List.map_filter_simps)
  qed
qed

lemma col_width_eq:
  "col_width grid c = Max (set (1 # map length (List.map_filter (\<lambda>row. row ! c) grid)))"
  unfolding col_width_def col_width_fold by (simp only: Max.set_eq_fold)

lemma col_width_ge:
  assumes "row \<in> set grid" and "row ! c = Some s"
  shows "length s \<le> col_width grid c"
proof -
  from assms have "s \<in> set (List.map_filter (\<lambda>row. row ! c) grid)"
    by (induction grid) (auto split: option.splits)
  then have "length s \<in> set (1 # map length (List.map_filter (\<lambda>row. row ! c) grid))"
    by simp
  then show ?thesis unfolding col_width_eq by (intro Max_ge) simp_all
qed

lemma read_grid_Some:
  assumes "read_grid cells cols = Some grid"
  shows "grid = map (\<lambda>row. map (\<lambda>c. if c < length row then Some (row ! c) else None) [0..<cols]) cells"
    and "\<forall>row \<in> set grid. length row = cols"
  using assms by (auto simp: read_grid_def split: if_splits)

lemma read_grid_column:
  assumes "read_grid cells cols = Some grid" and "c < cols"
  shows "List.map_filter (\<lambda>row. row ! c) grid
         = map (\<lambda>row. row ! c) (filter (\<lambda>row. c < length row) cells)"
proof -
  have "List.map_filter (\<lambda>row. row ! c)
          (map (\<lambda>row. map (\<lambda>c. if c < length row then Some (row ! c) else None) [0..<cols]) rows)
        = map (\<lambda>row. row ! c) (filter (\<lambda>row. c < length row) rows)" for rows :: "string list list"
    using assms(2) by (induction rows) (simp_all add: List.map_filter_simps)
  with read_grid_Some(1) [OF assms(1)] show ?thesis by simp
qed

lemma table_rows_eq:
  "table_rows (y + 2 * int n) colw grid
   = (concat (map (\<lambda>(r, cells_r). data_row (y + 2 * int r) colw cells_r
                                   @ border_row (y + 2 * int r + 1) colw)
               (enumerate n grid)),
      y + 2 * int (n + length grid))"
proof (induction grid arbitrary: n)
  case Nil
  show ?case by simp
next
  case (Cons cells_r grid)
  have "y + 2 * int n + 2 = y + 2 * int (Suc n)" by simp
  with Cons [of "Suc n"] show ?case by (simp add: algebra_simps)
qed

lemma data_row_layout:
  assumes "cells_r \<in> set grid" and "length cells_r = cols"
  shows "contiguous y 0 (data_row y (map (col_width grid) [0..<cols]) cells_r)
     \<and> concat (map op_text (data_row y (map (col_width grid) [0..<cols]) cells_r))
         = CHR ''|'' # concat (map cell_field (zip (map (col_width grid) [0..<cols]) cells_r))
     \<and> length (filter is_bar (data_row y (map (col_width grid) [0..<cols]) cells_r)) = cols + 1"
proof -
  let ?colw = "map (col_width grid) [0..<cols]"
  have "case cell of Some s \<Rightarrow> length s \<le> w | None \<Rightarrow> True"
    if "(w, cell) \<in> set (zip ?colw cells_r)" for w cell
  proof (cases cell)
    case (Some s)
    from that obtain i where "i < cols" "w = col_width grid i" "cells_r ! i = cell"
      by (auto simp: set_zip)
    with Some col_width_ge [OF assms(1), of i s] show ?thesis by simp
  qed simp
  then have "\<forall>(w, cell) \<in> set (zip ?colw cells_r).
               case cell of Some s \<Rightarrow> length s \<le> w | None \<Rightarrow> True"
    by blast
  from cell_cols_layout [OF this, of y 1] assms(2) show ?thesis
    by (simp add: data_row_def)
qed

lemma border_row_layout:
  "contiguous y 0 (border_row y colw)
   \<and> concat (map op_text (border_row y colw))
       = CHR ''+'' # concat (map (\<lambda>w. replicate (w + 2) (CHR ''-'') @ [CHR ''+'']) colw)"
  using border_cols_layout [of y 1 colw] by (simp add: border_row_def)

text \<open>
  The layout of a table none of whose rows is two or more cells shorter than
  the longest one.  The width of column \<open>c\<close> is the largest text length of a cell
  in that column, at least 1, and the border gives it two more columns; a
  border row comes first and again after every data row; a data row is one run
  of writes from column 0, a bar and then every cell as a space, its text
  padded with spaces to the column width, a space and a bar: \<open>cols + 1\<close> bars.
\<close>

lemma table_layout:
  assumes "table_cells table \<noteq> []"
    and "read_grid (table_cells table) (table_cols (table_cells table)) = Some grid"
  defines "cols \<equiv> table_cols (table_cells table)"
  defines "colw \<equiv> map (col_width grid) [0..<cols]"
  shows "render_table_node y table
         = Inr (border_row y colw
                @ concat (map (\<lambda>(r, cells_r). data_row (y + 1 + 2 * int r) colw cells_r
                                               @ border_row (y + 1 + 2 * int r + 1) colw)
                            (enumerate 0 grid)),
                y + 1 + 2 * int (length grid))"
    and "\<forall>c < cols. colw ! c
           = Max (set (1 # map (\<lambda>r. length (r ! c))
                              (filter (\<lambda>r. c < length r) (table_cells table))))"
    and "\<forall>cells_r \<in> set grid.
           contiguous y' 0 (data_row y' colw cells_r)
           \<and> concat (map op_text (data_row y' colw cells_r))
               = CHR ''|'' # concat (map cell_field (zip colw cells_r))
           \<and> length (filter is_bar (data_row y' colw cells_r)) = cols + 1"
    and "contiguous y' 0 (border_row y' colw)
         \<and> concat (map op_text (border_row y' colw))
             = CHR ''+'' # concat (map (\<lambda>w. replicate (w + 2) (CHR ''-'') @ [CHR ''+'']) colw)"
proof -
  from table_rows_eq [of "y + 1" 0 colw grid]
  show "render_table_node y table
         = Inr (border_row y colw
                @ concat (map (\<lambda>(r, cells_r). data_row (y + 1 + 2 * int r) colw cells_r
                                               @ border_row (y + 1 + 2 * int r + 1) colw)
                            (enumerate 0 grid)),
                y + 1 + 2 * int (length grid))"
    using assms(1,2) by (simp add: render_table_node_def Let_def cols_def colw_def)
  show "\<forall>c < cols. colw ! c
           = Max (set (1 # map (\<lambda>r. length (r ! c))
                              (filter (\<lambda>r. c < length r) (table_cells table))))"
    using read_grid_column [OF assms(2)]
    by (simp add: colw_def cols_def col_width_eq comp_def)
  show "\<forall>cells_r \<in> set grid.
           contiguous y' 0 (data_row y' colw cells_r)
           \<and> concat (map op_text (data_row y' colw cells_r))
               = CHR ''|'' # concat (map cell_field (zip colw cells_r))
           \<and> length (filter is_bar (data_row y' colw cells_r)) = cols + 1"
    using read_grid_Some(2) [OF assms(2)] data_row_layout [of _ grid cols y']
    by (simp add: colw_def cols_def)
  show "contiguous y' 0 (border_row y' colw)
         \<and> concat (map op_text (border_row y' colw))
             = CHR ''+'' # concat (map (\<lambda>w. replicate (w + 2) (CHR ''-'') @ [CHR ''+'']) colw)"
    by (rule border_row_layout)
qed

text \<open>
  The table of two rows and two columns with cells \<^verbatim>\<open>A\<close>, \<^verbatim>\<open>BB\<close> and \<^verbatim>\<open>1\<close>, \<^verbatim>\<open>22\<close>:
  column widths 1 and 2 (3 and 4 with the padding), five rows.
\<close>

lemma table_example:
  "table_cells (Node NODE_TABLE None []
      [Node NODE_TR None [] [Node NODE_TH None [] [text_node ''A''],
                             Node NODE_TH None [] [text_node ''BB'']],
       Node NODE_TR None [] [Node NODE_TD None [] [text_node ''1''],
                             Node NODE_TD None [] [text_node ''22'']]])
     = [[''A'', ''BB''], [''1'', ''22'']]
   \<and> map (col_width [[Some ''A'', Some ''BB''], [Some ''1'', Some ''22'']]) [0..<2] = [1, 2]
   \<and> map_sum id snd (render_table_node 0 (Node NODE_TABLE None []
      [Node NODE_TR None [] [Node NODE_TH None [] [text_node ''A''],
                             Node NODE_TH None [] [text_node ''BB'']],
       Node NODE_TR None [] [Node NODE_TD None [] [text_node ''1''],
                             Node NODE_TD None [] [text_node ''22'']]])) = Inr 5
   \<and> concat (map op_text (data_row 1 [1, 2] [Some ''A'', Some ''BB''])) = ''| A | BB |''
   \<and> concat (map op_text (border_row 0 [1, 2])) = ''+---+----+''"
  by code_simp

text \<open>
  C4.  In \<^verbatim>\<open><table><tr><td>a</td></tr><tr><td>b</td><td>c</td><td>d</td></tr></table>\<close>
  the first row has one cell, so its array has two slots, and the table has
  three columns: computing the width of the third column reads \<^verbatim>\<open>cells[0][2]\<close>,
  past the end of that array.
\<close>

theorem ragged_table_reads_out_of_bounds:
  "parse_html_tree ''<table><tr><td>a</td></tr><tr><td>b</td><td>c</td><td>d</td></tr></table>''
     = Some (Inr (Node NODE_DIV None []
         [Node NODE_TABLE None []
           [Node NODE_TR None [] [Node NODE_TD None [] [text_node ''a'']],
            Node NODE_TR None []
              [Node NODE_TD None [] [text_node ''b''],
               Node NODE_TD None [] [text_node ''c''],
               Node NODE_TD None [] [text_node ''d'']]]]))
   \<and> table_cells (Node NODE_TABLE None []
           [Node NODE_TR None [] [Node NODE_TD None [] [text_node ''a'']],
            Node NODE_TR None []
              [Node NODE_TD None [] [text_node ''b''],
               Node NODE_TD None [] [text_node ''c''],
               Node NODE_TD None [] [text_node ''d'']]])
       = [[''a''], [''b'', ''c'', ''d'']]
   \<and> render_table_node 0 (Node NODE_TABLE None []
           [Node NODE_TR None [] [Node NODE_TD None [] [text_node ''a'']],
            Node NODE_TR None []
              [Node NODE_TD None [] [text_node ''b''],
               Node NODE_TD None [] [text_node ''c''],
               Node NODE_TD None [] [text_node ''d'']]])
       = Inl OutOfBoundsRead"
  by code_simp

section \<open>The session\<close>

lemma scroll_fields [simp]:
  "g_pad_cur_y (scroll e s) = g_pad_cur_y s" "g_term_h (scroll e s) = g_term_h s"
  by (cases e; simp add: scroll_def Let_def)+

lemma scroll_clamped:
  assumes "2 \<le> g_term_h s" and "in_range s"
  shows "top_pos (scroll Up s) = clamp s (top_pos s - 1)"
    and "top_pos (scroll Down s) = clamp s (top_pos s + 1)"
    and "top_pos (scroll NPage s) = clamp s (top_pos s + (g_term_h s - 2))"
    and "top_pos (scroll PPage s) = clamp s (top_pos s - (g_term_h s - 2))"
  using assms by (auto simp: scroll_def Let_def clamp_def in_range_def max_scroll_def)

lemma scroll_in_range:
  assumes "2 \<le> g_term_h s" and "in_range s"
  shows "in_range (scroll e s)"
  using assms
  by (cases e) (auto simp: scroll_def Let_def in_range_def max_scroll_def)

text \<open>
  Whatever the height of the terminal, every key but page up keeps the offset
  in the interval.
\<close>

lemma scroll_in_range_but_page_up:
  assumes "e \<noteq> PPage" and "in_range s"
  shows "in_range (scroll e s)"
  using assms
  by (cases e) (auto simp: scroll_def Let_def in_range_def max_scroll_def)

lemma load_page_Viewing:
  assumes "load_page rd raw h w = Viewing s"
  shows "top_pos s = 0 \<and> g_term_h s = h
         \<and> (\<exists>tree. s_root s = Some tree \<and> g_pad_cur_y s = rd tree w + 4)"
  using assms by (auto simp: load_page_def split: option.splits sum.splits)

lemma ui_loop_in_range:
  assumes "list_all tall es" and "2 \<le> g_term_h s" and "in_range s"
    and "ui_loop rd es s = Viewing s'"
  shows "in_range s' \<and> 2 \<le> g_term_h s'"
  using assms
proof (induction es arbitrary: s)
  case Nil
  then show ?case by simp
next
  case (Cons e es)
  show ?case
  proof (cases e)
    case Quit
    with Cons.prems show ?thesis by simp
  next
    case (Reload raw h w)
    with Cons.prems(4) obtain s1 where l: "load_page rd raw h w = Viewing s1"
      and r: "ui_loop rd es s1 = Viewing s'"
      by (auto split: outcome.splits)
    from Cons.prems(1) have rest: "list_all tall es" and "tall e" by simp_all
    with Reload have h: "2 \<le> h" by (simp add: tall_def)
    from load_page_Viewing [OF l] h have "2 \<le> g_term_h s1" "in_range s1"
      by (auto simp: in_range_def max_scroll_def)
    from Cons.IH [OF rest this r] show ?thesis .
  next
    case Up
    with Cons.prems have "ui_loop rd es (scroll e s) = Viewing s'" "list_all tall es" by simp_all
    from Cons.IH [OF this(2) _ _ this(1)] scroll_in_range [OF Cons.prems(2,3), of e] Cons.prems(2)
    show ?thesis by simp
  next
    case Down
    with Cons.prems have "ui_loop rd es (scroll e s) = Viewing s'" "list_all tall es" by simp_all
    from Cons.IH [OF this(2) _ _ this(1)] scroll_in_range [OF Cons.prems(2,3), of e] Cons.prems(2)
    show ?thesis by simp
  next
    case NPage
    with Cons.prems have "ui_loop rd es (scroll e s) = Viewing s'" "list_all tall es" by simp_all
    from Cons.IH [OF this(2) _ _ this(1)] scroll_in_range [OF Cons.prems(2,3), of e] Cons.prems(2)
    show ?thesis by simp
  next
    case PPage
    with Cons.prems have "ui_loop rd es (scroll e s) = Viewing s'" "list_all tall es" by simp_all
    from Cons.IH [OF this(2) _ _ this(1)] scroll_in_range [OF Cons.prems(2,3), of e] Cons.prems(2)
    show ?thesis by simp
  next
    case Other
    with Cons.prems have "ui_loop rd es (scroll e s) = Viewing s'" "list_all tall es" by simp_all
    from Cons.IH [OF this(2) _ _ this(1)] scroll_in_range [OF Cons.prems(2,3), of e] Cons.prems(2)
    show ?thesis by simp
  qed
qed

text \<open>
  On a terminal of at least two rows (at the first load and at every reload)
  the scroll offset of a session that is still running lies in
  \<open>[0, max 0 (contentHeight - viewportHeight)]\<close> after every sequence of keys.
  There, line up and down move it by 1 and page up and down by
  \<open>viewportHeight - 2\<close>, clamped to the interval, and a load sets it to 0 with
  the content height of the new rendering.
\<close>

lemma scroll_offset_stays_in_range:
  "(2 \<le> h \<and> list_all tall es \<and> main rd raw h w es = Viewing s'
      \<longrightarrow> 0 \<le> top_pos s' \<and> top_pos s' \<le> max 0 (g_pad_cur_y s' - g_term_h s'))
   \<and> (2 \<le> g_term_h s \<and> in_range s
      \<longrightarrow> top_pos (scroll Up s) = clamp s (top_pos s - 1)
        \<and> top_pos (scroll Down s) = clamp s (top_pos s + 1)
        \<and> top_pos (scroll NPage s) = clamp s (top_pos s + (g_term_h s - 2))
        \<and> top_pos (scroll PPage s) = clamp s (top_pos s - (g_term_h s - 2)))
   \<and> (load_page rd raw h w = Viewing s
      \<longrightarrow> top_pos s = 0 \<and> (\<exists>tree. s_root s = Some tree \<and> g_pad_cur_y s = rd tree w + 4))"
proof (intro conjI impI)
  assume a: "2 \<le> h \<and> list_all tall es \<and> main rd raw h w es = Viewing s'"
  then obtain s0 where l: "load_page rd raw h w = Viewing s0" and r: "ui_loop rd es s0 = Viewing s'"
    by (auto simp: main_def split: outcome.splits)
  from load_page_Viewing [OF l] a have "2 \<le> g_term_h s0" "in_range s0"
    by (auto simp: in_range_def max_scroll_def)
  from ui_loop_in_range [OF _ this r] a have "in_range s'" by simp
  then show "0 \<le> top_pos s'" "top_pos s' \<le> max 0 (g_pad_cur_y s' - g_term_h s')"
    by (simp_all add: in_range_def max_scroll_def)
next
  assume a: "2 \<le> g_term_h s \<and> in_range s"
  then show "top_pos (scroll Up s) = clamp s (top_pos s - 1)"
    "top_pos (scroll Down s) = clamp s (top_pos s + 1)"
    "top_pos (scroll NPage s) = clamp s (top_pos s + (g_term_h s - 2))"
    "top_pos (scroll PPage s) = clamp s (top_pos s - (g_term_h s - 2))"
    using scroll_clamped [of s] by simp_all
next
  assume "load_page rd raw h w = Viewing s"
  from load_page_Viewing [OF this]
  show "top_pos s = 0" "\<exists>tree. s_root s = Some tree \<and> g_pad_cur_y s = rd tree w + 4"
    by simp_all
qed

lemma scroll_offset_stays_in_range_example:
  "list_all tall [NPage, NPage, Down, Reload (Some ''x'') 10 80, NPage]
   \<and> main (\<lambda>t w. 30) (Some ''<p>hello</p>'') 24 80
        [NPage, NPage, Down, Reload (Some ''x'') 10 80, NPage]
       = Viewing \<lparr>s_root = Some (Node NODE_DIV None [] [text_node ''x'']), top_pos = 8,
                  g_pad_cur_y = 34, g_term_h = 10, g_term_w = 80\<rparr>
   \<and> (0::int) \<le> 8 \<and> (8::int) \<le> max 0 (34 - 10)
   \<and> top_pos (scroll PPage \<lparr>s_root = None, top_pos = 5, g_pad_cur_y = 100,
                              g_term_h = 24, g_term_w = 80\<rparr>) = 0
   \<and> top_pos (scroll NPage \<lparr>s_root = None, top_pos = 5, g_pad_cur_y = 100,
                              g_term_h = 24, g_term_w = 80\<rparr>) = 27"
proof -
  let ?es = "[NPage, NPage, Down, Reload (Some ''x'') 10 80, NPage]"
  let ?s' = "\<lparr>s_root = Some (Node NODE_DIV None [] [text_node ''x'']), top_pos = 8,
              g_pad_cur_y = 34, g_term_h = 10, g_term_w = 80\<rparr>"
  let ?s = "\<lparr>s_root = None, top_pos = 5, g_pad_cur_y = 100, g_term_h = 24, g_term_w = 80\<rparr>"
  have t: "list_all tall ?es" by (simp add: tall_def)
  have m: "main (\<lambda>t w. 30) (Some ''<p>hello</p>'') 24 80 ?es = Viewing ?s'" by code_simp
  have r: "2 \<le> g_term_h ?s \<and> in_range ?s" by (simp add: in_range_def max_scroll_def)
  from scroll_offset_stays_in_range
    [of 24 ?es "\<lambda>t w. 30" "Some ''<p>hello</p>''" 80 ?s' ?s] t m r
  have "0 \<le> top_pos ?s' \<and> top_pos ?s' \<le> max 0 (g_pad_cur_y ?s' - g_term_h ?s')"
    and "top_pos (scroll NPage ?s) = clamp ?s (top_pos ?s + (g_term_h ?s - 2))"
    and "top_pos (scroll PPage ?s) = clamp ?s (top_pos ?s - (g_term_h ?s - 2))"
    by simp_all
  with t m show ?thesis by (simp add: clamp_def max_scroll_def)
qed

text \<open>
  C7.  Page up subtracts \<open>viewportHeight - 2\<close> and clamps the offset at 0 only;
  page down and line down also hold it at the upper end of the interval.  On a
  terminal of one row the page step is negative, so page up moves the offset
  up by one with nothing to stop it: after four page-ups on an empty page
  (content height 4) the offset is 4, above the bound 3.
\<close>

theorem page_up_leaves_range_on_one_row_terminal:
  "main (\<lambda>t w. 0) (Some []) 1 80 [PPage, PPage, PPage, PPage]
     = Viewing \<lparr>s_root = Some (Node NODE_DIV None [] []), top_pos = 4, g_pad_cur_y = 4,
                g_term_h = 1, g_term_w = 80\<rparr>
   \<and> \<not> ((4::int) \<le> max 0 (4 - 1))"
  by code_simp

text \<open>
  C9, as the code has it.  A fetch that fails ends the session with exit status
  1, at the first load and at a reload alike, whatever keys would follow: there
  is no retry, and the tree of the previous view has been freed before the
  fetch.
\<close>

theorem fetch_failure_ends_session:
  "load_page rd None h w = Exit 1
   \<and> main rd None h w es = Exit 1
   \<and> ui_loop rd (Reload None h w # es) s = Exit 1"
  by (simp add: main_def load_page_def)

text \<open>
  C9, as stated, has a fetch failure on reload passed back to a caller that may
  keep the previous view.  After a page has been shown, a reload whose fetch
  fails ends the run with status 1; the key that follows is never read.
\<close>

theorem failed_reload_exits:
  "main (\<lambda>t w. 30) (Some ''<p>hello</p>'') 24 80 [NPage, Reload None 24 80, Down] = Exit 1"
  by code_simp

end
